theory Spec2Isabelle
  imports Main "HOL-Library.AList" "HOL-Library.Multiset" "HOL-Library.Word"
begin

section \<open>The message dispatcher client (pkg/mq/msgdispatcher/client.go)\<close>

text \<open>
  The client owns a registry from physical channel names to dispatcher managers. Go's
  manager values are references to shared objects, so the model keeps an explicit store
  of manager objects (a list, indexed by reference) and a store of output queues (one
  flag per channel: open or closed); the registry maps a physical channel to a reference.
\<close>

subsection \<open>Positions, policies, errors and the transport\<close>

type_synonym Pos = nat

datatype SubPos = Earliest | Latest | Explicit

datatype error = DuplicateRegistration | TransportUnavailable | PositionInvalid

text \<open>
  Modelled from the spec: msgstream.Factory (the transport) is not among the sources. The
  specification gives its interface only: a subscribe on a topic at a position succeeds
  or fails with a transport error, and a start position is resolved from the optional
  position and the policy. Both are taken as arbitrary functions.
\<close>

record Factory =
  resolve :: "string \<Rightarrow> Pos option \<Rightarrow> SubPos \<Rightarrow> Pos"
  subscribe :: "string \<Rightarrow> Pos \<Rightarrow> error option"

text \<open>
  The naming transformation funcutil.ToPhysicalChannel and the tolerance window of the
  manager are not among the sources; they are parameters of the model.
\<close>

record Config =
  ToPhysicalChannel :: "string \<Rightarrow> string"
  tolerance :: nat

subsection \<open>The dispatcher manager\<close>

text \<open>
  Modelled from the spec: the Target of section 3 (logical id, desired start position,
  subscription policy, output queue). The output queue is a reference into the store of
  queues; the owning dispatcher is the one whose target list names the logical id.
\<close>

record Target =
  vchannel :: string
  pos :: Pos
  policy :: SubPos
  ch :: nat

text \<open>
  Modelled from the spec: the Dispatcher of section 3 (current cursor position and the
  attached targets); main or solo is decided by where the manager keeps it.
\<close>

record Dispatcher =
  cursor :: Pos
  dtargets :: "string list"

text \<open>
  Modelled from the spec: the DispatcherManager of section 3 (physical topic, main
  dispatcher, solo dispatchers, target registry) with the arguments its constructor
  receives in client.go. Two history fields record what the client did to the object:
  \<open>closed\<close> is set by Close, \<open>runs\<close> counts how many control loops were started.
\<close>

record DispatcherManager =
  pchannel :: string
  mrole :: string
  mnodeID :: "64 word"
  mfactory :: Factory
  mainDispatcher :: "Dispatcher option"
  soloDispatchers :: "Dispatcher list"
  targets :: "Target list"
  closed :: bool
  runs :: nat

text \<open>
  Modelled from the spec: NewDispatcherManager, called in client.go with the physical
  channel, role, node id and factory; a new manager has no dispatcher and no target.
\<close>

definition NewDispatcherManager ::
    "string \<Rightarrow> string \<Rightarrow> 64 word \<Rightarrow> Factory \<Rightarrow> DispatcherManager" where
  "NewDispatcherManager p r n f =
     \<lparr>pchannel = p, mrole = r, mnodeID = n, mfactory = f, mainDispatcher = None,
      soloDispatchers = [], targets = [], closed = False, runs = 0\<rparr>"

text \<open>
  Modelled from the spec: Run starts the background control loop of the manager. The
  loop's own work (merging) is the separate step \<open>Merge\<close> below.
\<close>

definition Run :: "DispatcherManager \<Rightarrow> DispatcherManager" where
  "Run m = m\<lparr>runs := Suc (runs m)\<rparr>"

definition within :: "nat \<Rightarrow> Pos \<Rightarrow> Pos \<Rightarrow> bool" where
  "within tol a b = ((if a \<le> b then b - a else a - b) \<le> tol)"

text \<open>
  Modelled from the spec: Add (section 4.2 and 4.1). A subscription already registered
  under the manager fails with DuplicateRegistration. Otherwise the start position is
  resolved; with no dispatcher yet the main dispatcher is created there; with a main
  dispatcher whose cursor is within the tolerance the target is attached to it;
  otherwise a solo dispatcher is created. A failing subscribe is returned as the error
  and changes nothing. The new output queue is the next free reference of the store.
\<close>

definition Add ::
    "nat \<Rightarrow> DispatcherManager \<Rightarrow> bool list \<Rightarrow> string \<Rightarrow> Pos option \<Rightarrow> SubPos
      \<Rightarrow> (error + nat) \<times> DispatcherManager \<times> bool list" where
  "Add tol m qs v p sp =
     (if v \<in> set (map vchannel (targets m)) then (Inl DuplicateRegistration, m, qs)
      else
        let start = resolve (mfactory m) (pchannel m) p sp;
            t = \<lparr>vchannel = v, pos = start, policy = sp, ch = length qs\<rparr>
        in case mainDispatcher m of
             None \<Rightarrow>
               (case subscribe (mfactory m) (pchannel m) start of
                  Some e \<Rightarrow> (Inl e, m, qs)
                | None \<Rightarrow>
                    (Inr (length qs),
                     m\<lparr>mainDispatcher := Some \<lparr>cursor = start, dtargets = [v]\<rparr>,
                       targets := targets m @ [t]\<rparr>,
                     qs @ [True]))
           | Some d \<Rightarrow>
               if within tol start (cursor d) then
                 (Inr (length qs),
                  m\<lparr>mainDispatcher := Some (d\<lparr>dtargets := dtargets d @ [v]\<rparr>),
                    targets := targets m @ [t]\<rparr>,
                  qs @ [True])
               else
                 (case subscribe (mfactory m) (pchannel m) start of
                    Some e \<Rightarrow> (Inl e, m, qs)
                  | None \<Rightarrow>
                      (Inr (length qs),
                       m\<lparr>soloDispatchers :=
                           soloDispatchers m @ [\<lparr>cursor = start, dtargets = [v]\<rparr>],
                         targets := targets m @ [t]\<rparr>,
                       qs @ [True])))"

definition closeQueues :: "nat list \<Rightarrow> bool list \<Rightarrow> bool list" where
  "closeQueues cs qs = fold (\<lambda>c q. q[c := False]) cs qs"

definition detach :: "string \<Rightarrow> Dispatcher \<Rightarrow> Dispatcher" where
  "detach v d = d\<lparr>dtargets := removeAll v (dtargets d)\<rparr>"

text \<open>
  Modelled from the spec: Remove (section 4.2) detaches the target from the dispatcher
  that holds it and closes its output queue; a solo dispatcher whose target set becomes
  empty is torn down, the main dispatcher is kept. An unknown subscription changes
  nothing.
\<close>

definition Remove ::
    "DispatcherManager \<Rightarrow> bool list \<Rightarrow> string \<Rightarrow> DispatcherManager \<times> bool list" where
  "Remove m qs v =
     (m\<lparr>mainDispatcher := map_option (detach v) (mainDispatcher m),
        soloDispatchers :=
          map (detach v)
            (filter (\<lambda>d. \<not> (v \<in> set (dtargets d) \<and> removeAll v (dtargets d) = []))
               (soloDispatchers m)),
        targets := filter (\<lambda>t. vchannel t \<noteq> v) (targets m)\<rparr>,
      closeQueues (map ch (filter (\<lambda>t. vchannel t = v) (targets m))) qs)"

text \<open>
  Modelled from the spec: the targets attached to the main dispatcher followed by those
  of the solo dispatchers, and Num (section 4.2), the total attached target count across
  main and all solos.
\<close>

definition attached :: "DispatcherManager \<Rightarrow> string list" where
  "attached m =
     (case mainDispatcher m of None \<Rightarrow> [] | Some d \<Rightarrow> dtargets d)
       @ concat (map dtargets (soloDispatchers m))"

definition Num :: "DispatcherManager \<Rightarrow> nat" where
  "Num m =
     (case mainDispatcher m of None \<Rightarrow> 0 | Some d \<Rightarrow> length (dtargets d))
       + sum_list (map (\<lambda>d. length (dtargets d)) (soloDispatchers m))"

text \<open>
  Modelled from the spec: Close of the manager (section 4.2) stops every dispatcher,
  releases the transport consumers and closes all remaining output queues.
\<close>

definition manager_Close ::
    "DispatcherManager \<Rightarrow> bool list \<Rightarrow> DispatcherManager \<times> bool list" where
  "manager_Close m qs =
     (m\<lparr>mainDispatcher := None, soloDispatchers := [], targets := [], closed := True\<rparr>,
      closeQueues (map ch (targets m)) qs)"

text \<open>
  Modelled from the spec: the background activity of a manager between two client
  calls. A dispatcher evicts a target whose queue is not drained in time and closes the
  queue (section 4.3); a dispatcher's cursor advances with the batches it delivers; the
  control loop merges every solo dispatcher whose cursor is within the tolerance of the
  main cursor into the main dispatcher and tears the solo down.
\<close>

definition Evict ::
    "DispatcherManager \<Rightarrow> bool list \<Rightarrow> string \<Rightarrow> DispatcherManager \<times> bool list" where
  "Evict m qs v =
     (m\<lparr>mainDispatcher := map_option (detach v) (mainDispatcher m),
        soloDispatchers := map (detach v) (soloDispatchers m),
        targets := filter (\<lambda>t. vchannel t \<noteq> v) (targets m)\<rparr>,
      closeQueues (map ch (filter (\<lambda>t. vchannel t = v) (targets m))) qs)"

definition advance :: "Pos \<Rightarrow> Dispatcher \<Rightarrow> Dispatcher" where
  "advance e d = (if cursor d < e then d\<lparr>cursor := e\<rparr> else d)"

definition Advance :: "DispatcherManager \<Rightarrow> nat \<Rightarrow> Pos \<Rightarrow> DispatcherManager" where
  "Advance m k e =
     (case k of
        0 \<Rightarrow> m\<lparr>mainDispatcher := map_option (advance e) (mainDispatcher m)\<rparr>
      | Suc j \<Rightarrow> m\<lparr>soloDispatchers := map (\<lambda>(i, d). if i = j then advance e d else d)
                                        (enumerate 0 (soloDispatchers m))\<rparr>)"

definition Merge :: "nat \<Rightarrow> DispatcherManager \<Rightarrow> DispatcherManager" where
  "Merge tol m =
     (case mainDispatcher m of
        None \<Rightarrow> m
      | Some d \<Rightarrow>
          m\<lparr>mainDispatcher :=
              Some (d\<lparr>dtargets :=
                dtargets d @ concat (map dtargets
                  (filter (\<lambda>s. within tol (cursor s) (cursor d)) (soloDispatchers m)))\<rparr>),
            soloDispatchers :=
              filter (\<lambda>s. \<not> within tol (cursor s) (cursor d)) (soloDispatchers m)\<rparr>)"

subsection \<open>The client\<close>

text \<open>
  The struct \<open>client\<close> of client.go. The field \<open>managers\<close> is the
  typeutil.ConcurrentMap from physical channels to manager references; the map type is
  not among the sources and is modelled as an association list with its four
  operations used here: Get is \<open>map_of\<close>, Insert is \<open>AList.update\<close>, GetAndRemove is
  \<open>AList.delete\<close> (the client ignores the value it returns), Range visits the entries.
\<close>

record client =
  role :: string
  nodeID :: "64 word"
  managers :: "(string \<times> nat) list"
  factory :: Factory

text \<open>The client together with the store of manager objects and of output queues.\<close>

record world = client +
  objs :: "DispatcherManager list"
  chans :: "bool list"

definition NewClient :: "Factory \<Rightarrow> string \<Rightarrow> 64 word \<Rightarrow> world" where
  "NewClient f r n =
     \<lparr>role = r, nodeID = n, managers = [], factory = f, objs = [], chans = []\<rparr>"

text \<open>
  Lines 64 to 70 of Register: look the manager of the physical channel up; when there is
  none, create one (a new object in the store), insert it and start its control loop.
\<close>

definition getManager :: "world \<Rightarrow> string \<Rightarrow> nat \<times> world" where
  "getManager w p =
     (case map_of (managers w) p of
        Some i \<Rightarrow> (i, w)
      | None \<Rightarrow>
          let manager = NewDispatcherManager p (role w) (nodeID w) (factory w);
              i = length (objs w)
          in (i, w\<lparr>managers := AList.update p i (managers w),
                   objs := objs w @ [Run manager]\<rparr>))"

text \<open>
  Register: the result is the error or the output queue (the Go function returns a nil
  channel with the error). A manager reference read from the registry is always a live
  object in Go; the model reads the store at that index.
\<close>

definition Register ::
    "Config \<Rightarrow> world \<Rightarrow> string \<Rightarrow> Pos option \<Rightarrow> SubPos \<Rightarrow> (error + nat) \<times> world" where
  "Register K w v p sp =
     (let pch = ToPhysicalChannel K v;
          (i, w1) = getManager w pch;
          (r, m', qs') = Add (tolerance K) (objs w1 ! i) (chans w1) v p sp;
          w2 = w1\<lparr>objs := (objs w1)[i := m'], chans := qs'\<rparr>
      in case r of
           Inl err \<Rightarrow>
             if Num m' = 0 then
               let (mc, qc) = manager_Close m' qs'
               in (Inl err,
                   w2\<lparr>objs := (objs w2)[i := mc], chans := qc,
                      managers := AList.delete pch (managers w2)\<rparr>)
             else (Inl err, w2)
         | Inr c \<Rightarrow> (Inr c, w2))"

definition Deregister :: "Config \<Rightarrow> world \<Rightarrow> string \<Rightarrow> world" where
  "Deregister K w v =
     (let pch = ToPhysicalChannel K v
      in case map_of (managers w) pch of
           None \<Rightarrow> w
         | Some i \<Rightarrow>
             let (m', qs') = Remove (objs w ! i) (chans w) v;
                 w2 = w\<lparr>objs := (objs w)[i := m'], chans := qs'\<rparr>
             in if Num m' = 0 then
                  let (mc, qc) = manager_Close m' qs'
                  in w2\<lparr>objs := (objs w2)[i := mc], chans := qc,
                        managers := AList.delete pch (managers w2)\<rparr>
                else w2)"

text \<open>
  Close: Range visits every entry of the registry; the callback removes the key and
  closes the manager it was given.
\<close>

definition closeEntry :: "string \<times> nat \<Rightarrow> world \<Rightarrow> world" where
  "closeEntry e w =
     (let (mc, qc) = manager_Close (objs w ! snd e) (chans w)
      in w\<lparr>managers := AList.delete (fst e) (managers w),
           objs := (objs w)[snd e := mc], chans := qc\<rparr>)"

definition Close :: "world \<Rightarrow> world" where
  "Close w = fold closeEntry (managers w) w"

subsection \<open>Background steps on the client's managers\<close>

text \<open>
  The background activity of the manager of a topic, applied to the object the registry
  refers to. With no manager for the topic nothing happens.
\<close>

definition onManager ::
    "(DispatcherManager \<Rightarrow> DispatcherManager) \<Rightarrow> world \<Rightarrow> string \<Rightarrow> world" where
  "onManager f w p =
     (case map_of (managers w) p of
        None \<Rightarrow> w
      | Some i \<Rightarrow> w\<lparr>objs := (objs w)[i := f (objs w ! i)]\<rparr>)"

definition evicted :: "Config \<Rightarrow> world \<Rightarrow> string \<Rightarrow> world" where
  "evicted K w v =
     (case map_of (managers w) (ToPhysicalChannel K v) of
        None \<Rightarrow> w
      | Some i \<Rightarrow>
          let (m', qs') = Evict (objs w ! i) (chans w) v
          in w\<lparr>objs := (objs w)[i := m'], chans := qs'\<rparr>)"

subsection \<open>Sequences of calls\<close>

text \<open>
  A history is a list of client calls and background steps. The second component of the
  state is the list of live subscriptions in the words of the specification: a
  subscription is live from a successful Register until it is deregistered or evicted,
  or the client is closed.
\<close>

datatype event =
    CallRegister string "Pos option" SubPos
  | CallDeregister string
  | CallClose
  | Evicts string
  | Advances string nat Pos
  | Merges string

fun step :: "Config \<Rightarrow> world \<times> string list \<Rightarrow> event \<Rightarrow> world \<times> string list" where
  "step K (w, L) (CallRegister v p sp) =
     (case Register K w v p sp of
        (Inr c, w') \<Rightarrow> (w', List.insert v L)
      | (Inl e, w') \<Rightarrow> (w', L))"
| "step K (w, L) (CallDeregister v) = (Deregister K w v, removeAll v L)"
| "step K (w, L) CallClose = (Close w, [])"
| "step K (w, L) (Evicts v) = (evicted K w v, removeAll v L)"
| "step K (w, L) (Advances p k e) = (onManager (\<lambda>m. Advance m k e) w p, L)"
| "step K (w, L) (Merges p) = (onManager (Merge (tolerance K)) w p, L)"

definition run :: "Config \<Rightarrow> event list \<Rightarrow> world \<times> string list \<Rightarrow> world \<times> string list" where
  "run K evs s = foldl (step K) s evs"

definition liveOn :: "Config \<Rightarrow> string list \<Rightarrow> string \<Rightarrow> nat" where
  "liveOn K L p = length (filter (\<lambda>v. ToPhysicalChannel K v = p) L)"

subsection \<open>Well-formed worlds\<close>

text \<open>
  What every world built by the client satisfies: a registered manager is an object of
  the store, is not closed, is registered under one key only, and its target registry
  names exactly the targets attached to its dispatchers, each of them once.
\<close>

definition manager_ok :: "DispatcherManager \<Rightarrow> bool" where
  "manager_ok m \<longleftrightarrow>
     \<not> closed m \<and> distinct (attached m)
       \<and> mset (map vchannel (targets m)) = mset (attached m)"

definition world_ok :: "world \<Rightarrow> bool" where
  "world_ok w \<longleftrightarrow>
     distinct (map fst (managers w)) \<and> distinct (map snd (managers w))
       \<and> (\<forall>e \<in> set (managers w). snd e < length (objs w) \<and> manager_ok (objs w ! snd e))"

text \<open>
  A world agrees with a list of live subscriptions when the world is well formed, no
  subscription is listed twice, the manager registered for a topic has exactly the live
  subscriptions of that topic attached, and every live subscription's topic has a
  manager.
\<close>

definition consistent :: "Config \<Rightarrow> world \<times> string list \<Rightarrow> bool" where
  "consistent K s \<longleftrightarrow>
     world_ok (fst s) \<and> distinct (snd s)
       \<and> (\<forall>e \<in> set (managers (fst s)).
             set (attached (objs (fst s) ! snd e))
               = {v \<in> set (snd s). ToPhysicalChannel K v = fst e})
       \<and> (\<forall>v \<in> set (snd s). ToPhysicalChannel K v \<in> fst ` set (managers (fst s)))"

text \<open>A manager that has been torn down: closed, with no dispatcher and no target left.\<close>

definition torn :: "DispatcherManager \<Rightarrow> bool" where
  "torn m \<longleftrightarrow> closed m \<and> mainDispatcher m = None \<and> soloDispatchers m = [] \<and> targets m = []"

subsection \<open>A concrete configuration\<close>

text \<open>
  A naming transformation for the concrete examples: the name up to its last
  underscore. A transport on which every subscribe succeeds, and one on which every
  subscribe fails.
\<close>

definition upToLastUnderscore :: "string \<Rightarrow> string" where
  "upToLastUnderscore v =
     (if CHR ''_'' \<in> set v then rev (tl (dropWhile (\<lambda>c. c \<noteq> CHR ''_'') (rev v))) else v)"

definition K0 :: Config where
  "K0 = \<lparr>ToPhysicalChannel = upToLastUnderscore, tolerance = 5\<rparr>"

definition okFactory :: Factory where
  "okFactory =
     \<lparr>resolve = (\<lambda>p q sp. case q of Some n \<Rightarrow> n | None \<Rightarrow> 0), subscribe = (\<lambda>p n. None)\<rparr>"

definition downFactory :: Factory where
  "downFactory =
     \<lparr>resolve = (\<lambda>p q sp. case q of Some n \<Rightarrow> n | None \<Rightarrow> 0),
      subscribe = (\<lambda>p n. Some TransportUnavailable)\<rparr>"

text \<open>A history on one topic: three registrations, the second far from the main cursor.\<close>

definition history1 :: "event list" where
  "history1 =
     [CallRegister ''a_1'' None Earliest, CallRegister ''a_2'' (Some 100) Latest,
      CallRegister ''a_3'' (Some 2) Explicit, CallDeregister ''a_1'']"

text \<open>A history on two topics, used for the concrete examples.\<close>

definition history2 :: "event list" where
  "history2 =
     [CallRegister ''a_1'' None Earliest, CallRegister ''a_2'' (Some 100) Latest,
      CallRegister ''b_1'' (Some 7) Explicit]"

text \<open>A history after which the manager of topic a is registered and holds no target.\<close>

definition history3 :: "event list" where
  "history3 = [CallRegister ''a_1'' None Earliest, Evicts ''a_1'']"

section \<open>Properties\<close>

subsection \<open>The manager's operations\<close>

lemma Num_attached: "Num m = length (attached m)"
  by (simp add: Num_def attached_def length_concat comp_def split: option.splits)

lemma Add_dup:
  "v \<in> set (map vchannel (targets m)) \<Longrightarrow> Add tol m qs v p sp = (Inl DuplicateRegistration, m, qs)"
  by (simp add: Add_def)

lemma Add_Inl: "Add tol m qs v p sp = (Inl e, m', qs') \<Longrightarrow> m' = m \<and> qs' = qs"
  by (auto simp: Add_def Let_def split: if_splits option.splits)

lemma Add_Inr:
  assumes "Add tol m qs v p sp = (Inr c, m', qs')"
  shows "c = length qs" and "qs' = qs @ [True]"
    and "v \<notin> set (map vchannel (targets m))"
    and "mset (attached m') = add_mset v (mset (attached m))"
    and "map vchannel (targets m') = map vchannel (targets m) @ [v]"
    and "closed m' = closed m" and "runs m' = runs m"
  using assms
  by (auto simp: Add_def Let_def attached_def split: if_splits option.splits)

lemma Add_ok:
  assumes "manager_ok m" and "Add tol m qs v p sp = (r, m', qs')"
  shows "manager_ok m'"
proof (cases r)
  case (Inl e)
  with assms show ?thesis by (auto dest: Add_Inl)
next
  case (Inr c)
  with assms(2) have A: "Add tol m qs v p sp = (Inr c, m', qs')" by simp
  have v: "v \<notin> set (attached m)"
    using Add_Inr(3)[OF A] assms(1) by (metis manager_ok_def set_mset_mset)
  have "distinct (attached m')"
    using Add_Inr(4)[OF A] assms(1) v
    by (metis manager_ok_def distinct.simps(2) mset.simps(2) mset_eq_imp_distinct_iff)
  then show ?thesis
    using Add_Inr(4,5,6)[OF A] assms(1) by (simp add: manager_ok_def)
qed

lemma concat_detach:
  "concat (map (dtargets \<circ> detach v)
      (filter (\<lambda>d. v \<in> set (dtargets d) \<longrightarrow> removeAll v (dtargets d) \<noteq> []) ds))
   = removeAll v (concat (map dtargets ds))"
  by (induction ds) (auto simp: detach_def)

lemma concat_detach_all:
  "concat (map (dtargets \<circ> detach v) ds) = removeAll v (concat (map dtargets ds))"
  by (induction ds) (auto simp: detach_def)

lemma names_filter:
  "map vchannel (filter (\<lambda>t. vchannel t \<noteq> v) ts) = removeAll v (map vchannel ts)"
  by (induction ts) auto

lemma Remove_attached: "attached (fst (Remove m qs v)) = removeAll v (attached m)"
  by (simp add: Remove_def attached_def concat_detach detach_def split: option.splits)

lemma Remove_targets:
  "map vchannel (targets (fst (Remove m qs v))) = removeAll v (map vchannel (targets m))"
  by (simp add: Remove_def names_filter)

lemma Remove_fields: "closed (fst (Remove m qs v)) = closed m" "runs (fst (Remove m qs v)) = runs m"
  by (simp_all add: Remove_def)

lemma mset_removeAll_cong:
  "mset xs = mset ys \<Longrightarrow> mset (removeAll v xs) = mset (removeAll v ys)"
  by (simp add: removeAll_filter_not_eq)

lemma Remove_ok:
  assumes "manager_ok m"
  shows "manager_ok (fst (Remove m qs v))"
proof -
  have "mset (removeAll v (map vchannel (targets m))) = mset (removeAll v (attached m))"
    using assms by (intro mset_removeAll_cong) (simp add: manager_ok_def)
  then show ?thesis
    using assms
    by (simp add: manager_ok_def Remove_attached Remove_targets Remove_fields distinct_removeAll)
qed

lemma Evict_attached: "attached (fst (Evict m qs v)) = removeAll v (attached m)"
  by (simp add: Evict_def attached_def concat_detach_all detach_def split: option.splits)

lemma Evict_targets:
  "map vchannel (targets (fst (Evict m qs v))) = removeAll v (map vchannel (targets m))"
  by (simp add: Evict_def names_filter)

lemma Evict_closed: "closed (fst (Evict m qs v)) = closed m"
  by (simp add: Evict_def)

lemma Evict_ok:
  assumes "manager_ok m"
  shows "manager_ok (fst (Evict m qs v))"
proof -
  have "mset (removeAll v (map vchannel (targets m))) = mset (removeAll v (attached m))"
    using assms by (intro mset_removeAll_cong) (simp add: manager_ok_def)
  then show ?thesis
    using assms
    by (simp add: manager_ok_def Evict_attached Evict_targets Evict_closed distinct_removeAll)
qed

lemma map_detach_id: "\<forall>d \<in> set ds. v \<notin> set (dtargets d) \<Longrightarrow> map (detach v) ds = ds"
  by (induction ds) (auto simp: detach_def)

lemma Remove_unknown:
  assumes "manager_ok m" and "v \<notin> set (map vchannel (targets m))"
  shows "Remove m qs v = (m, qs)"
proof -
  have v: "v \<notin> set (attached m)"
    using assms by (metis manager_ok_def set_mset_mset)
  then have s: "\<forall>d \<in> set (soloDispatchers m). v \<notin> set (dtargets d)"
    by (auto simp: attached_def)
  have t: "filter (\<lambda>t. vchannel t \<noteq> v) (targets m) = targets m"
    and u: "filter (\<lambda>t. vchannel t = v) (targets m) = []"
    using assms(2) by (auto simp: filter_empty_conv filter_id_conv)
  have f: "filter (\<lambda>d. v \<in> set (dtargets d) \<longrightarrow> removeAll v (dtargets d) \<noteq> [])
             (soloDispatchers m) = soloDispatchers m"
    using s by (simp add: filter_id_conv)
  have mo: "map_option (detach v) (mainDispatcher m) = mainDispatcher m"
    using v by (cases "mainDispatcher m") (auto simp: attached_def detach_def)
  show ?thesis
    by (simp add: Remove_def t u f mo map_detach_id[OF s] closeQueues_def)
qed

lemma map_dtargets_advance:
  "map dtargets (map (\<lambda>(i, d). if i = j then advance e d else d) (enumerate n ds)) = map dtargets ds"
  by (induction ds arbitrary: n) (auto simp: advance_def)

lemma Advance_attached: "attached (Advance m k e) = attached m"
  by (cases k; cases "mainDispatcher m") 
     (simp_all add: Advance_def attached_def map_dtargets_advance advance_def del: map_map)

lemma Advance_ok: "manager_ok m \<Longrightarrow> manager_ok (Advance m k e)"
  by (simp add: manager_ok_def Advance_attached) (cases k; simp add: Advance_def)

lemma mset_concat_partition:
  "mset (concat (map f (filter P xs))) + mset (concat (map f (filter (\<lambda>x. \<not> P x) xs)))
   = mset (concat (map f xs))"
  by (induction xs) auto

lemma Merge_attached: "mset (attached (Merge tol m)) = mset (attached m)"
  by (cases "mainDispatcher m")
     (simp_all add: Merge_def attached_def mset_concat_partition add.assoc)

lemma Merge_ok: "manager_ok m \<Longrightarrow> manager_ok (Merge tol m)"
  using Merge_attached[of tol m]
  by (auto simp: manager_ok_def dest: mset_eq_imp_distinct_iff)
     (auto simp: Merge_def split: option.splits)

subsection \<open>Updating a well-formed world\<close>

lemma wok_entry:
  assumes "world_ok w" and "map_of (managers w) p = Some i"
  shows "i < length (objs w)" and "manager_ok (objs w ! i)"
  using assms map_of_SomeD[OF assms(2)] by (auto simp: world_ok_def)

lemma wok_other:
  assumes "world_ok w" and "map_of (managers w) p = Some i"
    and "e \<in> set (managers w)" and "fst e \<noteq> p"
  shows "snd e \<noteq> i"
proof
  assume "snd e = i"
  moreover have "(p, i) \<in> set (managers w)" using assms(2) by (rule map_of_SomeD)
  moreover have "inj_on snd (set (managers w))"
    using assms(1) by (simp add: world_ok_def distinct_map)
  ultimately have "e = (p, i)"
    using assms(3) inj_onD[of snd "set (managers w)" e "(p, i)"] by simp
  with assms(4) show False by simp
qed

lemma wok_None: "map_of (managers w) p = None \<Longrightarrow> p \<notin> fst ` set (managers w)"
  by (simp add: map_of_eq_None_iff)

lemma update_fresh: "k \<notin> fst ` set al \<Longrightarrow> AList.update k v al = al @ [(k, v)]"
  by (induction al) auto

lemma set_delete: "set (AList.delete k al) = {e \<in> set al. fst e \<noteq> k}"
  by (auto simp: AList.delete_eq)

lemma distinct_snd_delete:
  "distinct (map snd al) \<Longrightarrow> distinct (map snd (AList.delete k al))"
  by (simp add: AList.delete_eq distinct_map_filter)

lemma wok_upd:
  assumes "world_ok w" and "map_of (managers w) p = Some i" and "manager_ok m'"
    and "managers w' = managers w" and "objs w' = (objs w)[i := m']"
  shows "world_ok w'"
  using assms wok_entry[OF assms(1,2)]
  by (auto simp: world_ok_def nth_list_update)

lemma wok_drop:
  assumes "world_ok w" and "map_of (managers w) p = Some i"
    and "managers w' = AList.delete p (managers w)" and "objs w' = (objs w)[i := mc]"
  shows "world_ok w'"
proof -
  have "snd e < length (objs w') \<and> manager_ok (objs w' ! snd e)"
    if "e \<in> set (managers w')" for e
  proof -
    from that have e: "e \<in> set (managers w)" "fst e \<noteq> p"
      by (simp_all add: assms(3) set_delete)
    then have "snd e \<noteq> i" using wok_other[OF assms(1,2)] by blast
    with e assms(1,4) show ?thesis by (auto simp: world_ok_def)
  qed
  then show ?thesis
    using assms(1) by (simp add: world_ok_def assms(3) distinct_delete distinct_snd_delete)
qed

lemma wok_new:
  assumes "world_ok w" and "map_of (managers w) p = None" and "manager_ok m'"
    and "managers w' = AList.update p (length (objs w)) (managers w)"
    and "objs w' = objs w @ [m']"
  shows "world_ok w'"
proof -
  have m: "managers w' = managers w @ [(p, length (objs w))]"
    using assms(2,4) by (simp add: update_fresh wok_None)
  have "length (objs w) \<notin> snd ` set (managers w)"
    using assms(1) by (auto simp: world_ok_def)
  then show ?thesis
    using assms(1,3) wok_None[OF assms(2)]
    by (auto simp: world_ok_def m assms(5) nth_append)
qed

lemma wok_garbage:
  assumes "world_ok w" and "managers w' = managers w" and "objs w' = objs w @ xs"
  shows "world_ok w'"
  using assms by (auto simp: world_ok_def nth_append)

lemma entry_cases:
  assumes "world_ok w" and "map_of (managers w) p = Some i" and "e \<in> set (managers w)"
  shows "e = (p, i) \<or> (fst e \<noteq> p \<and> snd e \<noteq> i)"
proof (cases "fst e = p")
  case True
  have "map_of (managers w) (fst e) = Some (snd e)"
    using assms(1,3) by (intro map_of_is_SomeI) (simp_all add: world_ok_def)
  with True assms(2) show ?thesis by (cases e) simp
next
  case False
  then show ?thesis using wok_other[OF assms(1,2,3)] by simp
qed

lemma cons_upd:
  assumes "consistent K (w, L)" and "map_of (managers w) p = Some i" and "manager_ok m'"
    and "managers w' = managers w" and "objs w' = (objs w)[i := m']"
    and "distinct L'"
    and "set (attached m') = {v \<in> set L'. ToPhysicalChannel K v = p}"
    and "\<forall>v. ToPhysicalChannel K v \<noteq> p \<longrightarrow> (v \<in> set L' \<longleftrightarrow> v \<in> set L)"
  shows "consistent K (w', L')"
proof -
  have w: "world_ok w" using assms(1) by (simp add: consistent_def)
  have i: "i < length (objs w)" using wok_entry[OF w assms(2)] by simp
  have "world_ok w'" using wok_upd[OF w assms(2,3,4,5)] .
  moreover have "set (attached (objs w' ! snd e)) = {v \<in> set L'. ToPhysicalChannel K v = fst e}"
    if "e \<in> set (managers w')" for e
  proof -
    from that have e: "e \<in> set (managers w)" by (simp add: assms(4))
    from entry_cases[OF w assms(2) e] show ?thesis
    proof
      assume "e = (p, i)"
      then show ?thesis using i assms(5,7) by simp
    next
      assume n: "fst e \<noteq> p \<and> snd e \<noteq> i"
      then have "set (attached (objs w' ! snd e)) = {v \<in> set L. ToPhysicalChannel K v = fst e}"
        using assms(1) e by (simp add: consistent_def assms(5))
      also have "\<dots> = {v \<in> set L'. ToPhysicalChannel K v = fst e}"
        using n assms(8) by auto
      finally show ?thesis .
    qed
  qed
  moreover have "ToPhysicalChannel K v \<in> fst ` set (managers w')" if "v \<in> set L'" for v
  proof (cases "ToPhysicalChannel K v = p")
    case True
    then show ?thesis
      using map_of_SomeD[OF assms(2)] by (force simp: assms(4))
  next
    case False
    with that assms(8) have "v \<in> set L" by simp
    then show ?thesis using assms(1) by (simp add: consistent_def assms(4))
  qed
  ultimately show ?thesis using assms(6) by (simp add: consistent_def)
qed

lemma cons_drop:
  assumes "consistent K (w, L)" and "map_of (managers w) p = Some i"
    and "managers w' = AList.delete p (managers w)" and "objs w' = (objs w)[i := mc]"
    and "distinct L'"
    and "{v \<in> set L'. ToPhysicalChannel K v = p} = {}"
    and "\<forall>v. ToPhysicalChannel K v \<noteq> p \<longrightarrow> (v \<in> set L' \<longleftrightarrow> v \<in> set L)"
  shows "consistent K (w', L')"
proof -
  have w: "world_ok w" using assms(1) by (simp add: consistent_def)
  have "world_ok w'" using wok_drop[OF w assms(2,3,4)] .
  moreover have "set (attached (objs w' ! snd e)) = {v \<in> set L'. ToPhysicalChannel K v = fst e}"
    if "e \<in> set (managers w')" for e
  proof -
    from that have e: "e \<in> set (managers w)" "fst e \<noteq> p"
      by (simp_all add: assms(3) set_delete)
    then have n: "snd e \<noteq> i" using wok_other[OF w assms(2)] by blast
    then have "set (attached (objs w' ! snd e)) = {v \<in> set L. ToPhysicalChannel K v = fst e}"
      using assms(1) e by (simp add: consistent_def assms(4))
    also have "\<dots> = {v \<in> set L'. ToPhysicalChannel K v = fst e}"
      using e assms(7) by auto
    finally show ?thesis .
  qed
  moreover have "ToPhysicalChannel K v \<in> fst ` set (managers w')" if "v \<in> set L'" for v
  proof -
    have n: "ToPhysicalChannel K v \<noteq> p" using that assms(6) by auto
    with that assms(7) have "v \<in> set L" by simp
    then have "ToPhysicalChannel K v \<in> fst ` set (managers w)"
      using assms(1) by (simp add: consistent_def)
    with n show ?thesis by (auto simp: assms(3) set_delete)
  qed
  ultimately show ?thesis using assms(5) by (simp add: consistent_def)
qed

lemma cons_new:
  assumes "consistent K (w, L)" and "map_of (managers w) p = None" and "manager_ok m'"
    and "managers w' = AList.update p (length (objs w)) (managers w)"
    and "objs w' = objs w @ [m']"
    and "distinct L'"
    and "set (attached m') = {v \<in> set L'. ToPhysicalChannel K v = p}"
    and "\<forall>v. ToPhysicalChannel K v \<noteq> p \<longrightarrow> (v \<in> set L' \<longleftrightarrow> v \<in> set L)"
  shows "consistent K (w', L')"
proof -
  have w: "world_ok w" using assms(1) by (simp add: consistent_def)
  have m: "managers w' = managers w @ [(p, length (objs w))]"
    using assms(2,4) by (simp add: update_fresh wok_None)
  have "world_ok w'" using wok_new[OF w assms(2,3,4,5)] .
  moreover have "set (attached (objs w' ! snd e)) = {v \<in> set L'. ToPhysicalChannel K v = fst e}"
    if "e \<in> set (managers w')" for e
  proof (cases "e = (p, length (objs w))")
    case True
    then show ?thesis using assms(5,7) by simp
  next
    case False
    with that have e: "e \<in> set (managers w)" by (simp add: m)
    then have "snd e < length (objs w)" using w by (simp add: world_ok_def)
    moreover have "fst e \<noteq> p" using e wok_None[OF assms(2)] by auto
    ultimately show ?thesis
      using assms(1,8) e by (auto simp: consistent_def assms(5) nth_append)
  qed
  moreover have "ToPhysicalChannel K v \<in> fst ` set (managers w')" if "v \<in> set L'" for v
  proof (cases "ToPhysicalChannel K v = p")
    case True
    then show ?thesis by (simp add: m)
  next
    case False
    with that assms(8) have "v \<in> set L" by simp
    then show ?thesis using assms(1) by (simp add: consistent_def m)
  qed
  ultimately show ?thesis using assms(6) by (simp add: consistent_def)
qed

lemma cons_garbage:
  assumes "consistent K (w, L)" and "managers w' = managers w" and "objs w' = objs w @ xs"
  shows "consistent K (w', L)"
proof -
  have w: "world_ok w" using assms(1) by (simp add: consistent_def)
  have "snd e < length (objs w)" if "e \<in> set (managers w)" for e
    using that w by (simp add: world_ok_def)
  then show ?thesis
    using assms(1) wok_garbage[OF w assms(2,3)]
    by (simp add: consistent_def assms(2,3) nth_append)
qed

subsection \<open>The client's calls, case by case\<close>

lemma Register_old:
  assumes "map_of (managers w) (ToPhysicalChannel K v) = Some i"
    and "Add (tolerance K) (objs w ! i) (chans w) v p sp = (r, m', qs')"
  shows "Register K w v p sp =
    (case r of
       Inl err \<Rightarrow>
         if Num m' = 0 then
           (Inl err, w\<lparr>managers := AList.delete (ToPhysicalChannel K v) (managers w),
                       objs := (objs w)[i := fst (manager_Close m' qs')],
                       chans := snd (manager_Close m' qs')\<rparr>)
         else (Inl err, w\<lparr>objs := (objs w)[i := m'], chans := qs'\<rparr>)
     | Inr c \<Rightarrow> (Inr c, w\<lparr>objs := (objs w)[i := m'], chans := qs'\<rparr>))"
  using assms
  by (simp add: Register_def getManager_def Let_def split: prod.splits sum.splits)

lemma Register_new:
  assumes "map_of (managers w) (ToPhysicalChannel K v) = None"
    and "Add (tolerance K)
           (Run (NewDispatcherManager (ToPhysicalChannel K v) (role w) (nodeID w) (factory w)))
           (chans w) v p sp = (r, m', qs')"
  shows "Register K w v p sp =
    (case r of
       Inl err \<Rightarrow>
         if Num m' = 0 then
           (Inl err, w\<lparr>managers := AList.delete (ToPhysicalChannel K v)
                                    (AList.update (ToPhysicalChannel K v) (length (objs w)) (managers w)),
                       objs := objs w @ [fst (manager_Close m' qs')],
                       chans := snd (manager_Close m' qs')\<rparr>)
         else (Inl err, w\<lparr>managers := AList.update (ToPhysicalChannel K v) (length (objs w)) (managers w),
                           objs := objs w @ [m'], chans := qs'\<rparr>)
     | Inr c \<Rightarrow> (Inr c, w\<lparr>managers := AList.update (ToPhysicalChannel K v) (length (objs w)) (managers w),
                           objs := objs w @ [m'], chans := qs'\<rparr>))"
  using assms
  by (simp add: Register_def getManager_def Let_def split: prod.splits sum.splits)

lemma Deregister_none:
  "map_of (managers w) (ToPhysicalChannel K v) = None \<Longrightarrow> Deregister K w v = w"
  by (simp add: Deregister_def)

lemma Deregister_some:
  assumes "map_of (managers w) (ToPhysicalChannel K v) = Some i"
    and "Remove (objs w ! i) (chans w) v = (m', qs')"
  shows "Deregister K w v =
    (if Num m' = 0 then
       w\<lparr>managers := AList.delete (ToPhysicalChannel K v) (managers w),
         objs := (objs w)[i := fst (manager_Close m' qs')],
         chans := snd (manager_Close m' qs')\<rparr>
     else w\<lparr>objs := (objs w)[i := m'], chans := qs'\<rparr>)"
  using assms
  by (simp add: Deregister_def Let_def split: prod.splits)

lemma new_manager_ok: "manager_ok (Run (NewDispatcherManager p r n f))"
  by (simp add: manager_ok_def Run_def NewDispatcherManager_def attached_def)

lemma new_manager_attached: "attached (Run (NewDispatcherManager p r n f)) = []"
  by (simp add: Run_def NewDispatcherManager_def attached_def)

lemma ok_names: "manager_ok m \<Longrightarrow> set (map vchannel (targets m)) = set (attached m)"
  by (metis manager_ok_def set_mset_mset)

subsection \<open>Every step keeps the world consistent\<close>

lemma Register_consistent:
  assumes C: "consistent K (w, L)"
  shows "consistent K (step K (w, L) (CallRegister v p sp))"
proof -
  let ?p = "ToPhysicalChannel K v"
  have w: "world_ok w" and dL: "distinct L" using C by (simp_all add: consistent_def)
  have keys: "\<And>u. u \<in> set L \<Longrightarrow> ToPhysicalChannel K u \<in> fst ` set (managers w)"
    using C by (simp add: consistent_def)
  show ?thesis
  proof (cases "map_of (managers w) ?p")
    case None
    let ?m0 = "Run (NewDispatcherManager ?p (role w) (nodeID w) (factory w))"
    obtain r m' qs' where A: "Add (tolerance K) ?m0 (chans w) v p sp = (r, m', qs')"
      by (metis prod_cases3)
    note R = Register_new[OF None A]
    have nk: "?p \<notin> fst ` set (managers w)" using None by (rule wok_None)
    have np: "\<And>u. u \<in> set L \<Longrightarrow> ToPhysicalChannel K u \<noteq> ?p" using keys nk by metis
    then have vL: "v \<notin> set L" by blast
    show ?thesis
    proof (cases r)
      case (Inl e)
      then have m': "m' = ?m0" using Add_Inl A by blast
      have n0: "Num m' = 0" by (simp add: m' Num_attached new_manager_attached)
      have d: "AList.delete ?p (AList.update ?p (length (objs w)) (managers w)) = managers w"
        using nk by (simp add: delete_update_same)
      have st: "step K (w, L) (CallRegister v p sp) =
          (w\<lparr>managers := managers w, objs := objs w @ [fst (manager_Close m' qs')],
             chans := snd (manager_Close m' qs')\<rparr>, L)"
        by (simp add: R Inl n0 d)
      show ?thesis
        unfolding st by (rule cons_garbage[OF C]) simp_all
    next
      case (Inr c)
      with A have A': "Add (tolerance K) ?m0 (chans w) v p sp = (Inr c, m', qs')" by simp
      have ok: "manager_ok m'" using Add_ok[OF new_manager_ok A] .
      have "mset (attached m') = {#v#}"
        using Add_Inr(4)[OF A'] by (simp add: new_manager_attached)
      then have "set_mset (mset (attached m')) = {v}" by simp
      then have att: "set (attached m') = {v}" by simp
      have s: "set (attached m') = {u \<in> set (v # L). ToPhysicalChannel K u = ?p}"
        using att np by auto
      have st: "step K (w, L) (CallRegister v p sp) =
          (w\<lparr>managers := AList.update ?p (length (objs w)) (managers w),
             objs := objs w @ [m'], chans := qs'\<rparr>, v # L)"
        using vL by (simp add: R Inr)
      have t: "\<forall>u. ToPhysicalChannel K u \<noteq> ?p \<longrightarrow> (u \<in> set (v # L) \<longleftrightarrow> u \<in> set L)"
        by auto
      show ?thesis
        unfolding st using vL dL
        by (intro cons_new[OF C None ok _ _ _ s t]) simp_all
    qed
  next
    case (Some i)
    let ?m = "objs w ! i"
    obtain r m' qs' where A: "Add (tolerance K) ?m (chans w) v p sp = (r, m', qs')"
      by (metis prod_cases3)
    note R = Register_old[OF Some A]
    have okm: "manager_ok ?m" using wok_entry[OF w Some] by simp
    have att: "set (attached ?m) = {u \<in> set L. ToPhysicalChannel K u = ?p}"
      using C map_of_SomeD[OF Some] by (force simp: consistent_def)
    show ?thesis
    proof (cases r)
      case (Inl e)
      then have m': "m' = ?m" using Add_Inl A by blast
      show ?thesis
      proof (cases "Num m' = 0")
        case True
        then have "attached ?m = []" by (simp add: m' Num_attached)
        with att have "{u \<in> set L. ToPhysicalChannel K u = ?p} = {}" by simp
        then have e: "{u \<in> set L. ToPhysicalChannel K u = ?p} = {}" .
        have st: "step K (w, L) (CallRegister v p sp) =
            (w\<lparr>managers := AList.delete ?p (managers w),
               objs := (objs w)[i := fst (manager_Close m' qs')],
               chans := snd (manager_Close m' qs')\<rparr>, L)"
          by (simp add: R Inl True)
        show ?thesis
          unfolding st by (intro cons_drop[OF C Some _ _ dL e]) simp_all
      next
        case False
        then have st: "step K (w, L) (CallRegister v p sp) =
            (w\<lparr>objs := (objs w)[i := objs w ! i], chans := qs'\<rparr>, L)"
          by (simp add: R Inl m')
        show ?thesis
          unfolding st by (intro cons_upd[OF C Some okm _ _ dL att]) simp_all
      qed
    next
      case (Inr c)
      with A have A': "Add (tolerance K) ?m (chans w) v p sp = (Inr c, m', qs')" by simp
      have ok: "manager_ok m'" using Add_ok[OF okm A] .
      have "v \<notin> set (attached ?m)" using Add_Inr(3)[OF A'] ok_names[OF okm] by simp
      with att have vL: "v \<notin> set L" by simp
      have "set_mset (mset (attached m')) = insert v (set (attached ?m))"
        using Add_Inr(4)[OF A'] by simp
      then have "set (attached m') = insert v (set (attached ?m))" by simp
      with att have s: "set (attached m') = {u \<in> set (v # L). ToPhysicalChannel K u = ?p}"
        by auto
      have st: "step K (w, L) (CallRegister v p sp) =
          (w\<lparr>objs := (objs w)[i := m'], chans := qs'\<rparr>, v # L)"
        using vL by (simp add: R Inr)
      have t: "\<forall>u. ToPhysicalChannel K u \<noteq> ?p \<longrightarrow> (u \<in> set (v # L) \<longleftrightarrow> u \<in> set L)"
        by auto
      show ?thesis
        unfolding st using vL dL
        by (intro cons_upd[OF C Some ok _ _ _ s t]) simp_all
    qed
  qed
qed

lemma Deregister_consistent:
  assumes C: "consistent K (w, L)"
  shows "consistent K (step K (w, L) (CallDeregister v))"
proof -
  let ?p = "ToPhysicalChannel K v"
  have w: "world_ok w" and dL: "distinct L" using C by (simp_all add: consistent_def)
  have keys: "\<And>u. u \<in> set L \<Longrightarrow> ToPhysicalChannel K u \<in> fst ` set (managers w)"
    using C by (simp add: consistent_def)
  show ?thesis
  proof (cases "map_of (managers w) ?p")
    case None
    have "v \<notin> set L" using keys wok_None[OF None] by metis
    then show ?thesis using C by (simp add: Deregister_none[OF None])
  next
    case (Some i)
    let ?m = "objs w ! i"
    obtain m' qs' where A: "Remove ?m (chans w) v = (m', qs')" by (metis surj_pair)
    note R = Deregister_some[OF Some A]
    have m': "m' = fst (Remove ?m (chans w) v)" using A by simp
    have okm: "manager_ok ?m" using wok_entry[OF w Some] by simp
    have ok: "manager_ok m'" unfolding m' using okm by (rule Remove_ok)
    have att: "set (attached ?m) = {u \<in> set L. ToPhysicalChannel K u = ?p}"
      using C map_of_SomeD[OF Some] by (force simp: consistent_def)
    have s: "set (attached m') = {u \<in> set (removeAll v L). ToPhysicalChannel K u = ?p}"
      unfolding m' Remove_attached using att by auto
    have o: "\<forall>u. ToPhysicalChannel K u \<noteq> ?p \<longrightarrow> (u \<in> set (removeAll v L) \<longleftrightarrow> u \<in> set L)"
      by auto
    have d: "distinct (removeAll v L)" using dL by (simp add: distinct_removeAll)
    show ?thesis
    proof (cases "Num m' = 0")
      case True
      then have "attached m' = []" by (simp add: Num_attached)
      with s have e: "{u \<in> set (removeAll v L). ToPhysicalChannel K u = ?p} = {}" by simp
      have st: "step K (w, L) (CallDeregister v) =
          (w\<lparr>managers := AList.delete ?p (managers w),
             objs := (objs w)[i := fst (manager_Close m' qs')],
             chans := snd (manager_Close m' qs')\<rparr>, removeAll v L)"
        by (simp add: R True)
      show ?thesis
        unfolding st by (intro cons_drop[OF C Some _ _ d e o]) simp_all
    next
      case False
      then have st: "step K (w, L) (CallDeregister v) =
          (w\<lparr>objs := (objs w)[i := m'], chans := qs'\<rparr>, removeAll v L)"
        by (simp add: R)
      show ?thesis
        unfolding st by (intro cons_upd[OF C Some ok _ _ d s o]) simp_all
    qed
  qed
qed

lemma evicted_consistent:
  assumes C: "consistent K (w, L)"
  shows "consistent K (step K (w, L) (Evicts v))"
proof -
  let ?p = "ToPhysicalChannel K v"
  have w: "world_ok w" and dL: "distinct L" using C by (simp_all add: consistent_def)
  have keys: "\<And>u. u \<in> set L \<Longrightarrow> ToPhysicalChannel K u \<in> fst ` set (managers w)"
    using C by (simp add: consistent_def)
  show ?thesis
  proof (cases "map_of (managers w) ?p")
    case None
    have "v \<notin> set L" using keys wok_None[OF None] by metis
    then show ?thesis using C by (simp add: evicted_def None)
  next
    case (Some i)
    let ?m = "objs w ! i"
    let ?m' = "fst (Evict ?m (chans w) v)"
    have okm: "manager_ok ?m" using wok_entry[OF w Some] by simp
    have ok: "manager_ok ?m'" using okm by (rule Evict_ok)
    have att: "set (attached ?m) = {u \<in> set L. ToPhysicalChannel K u = ?p}"
      using C map_of_SomeD[OF Some] by (force simp: consistent_def)
    have s: "set (attached ?m') = {u \<in> set (removeAll v L). ToPhysicalChannel K u = ?p}"
      unfolding Evict_attached using att by auto
    have o: "\<forall>u. ToPhysicalChannel K u \<noteq> ?p \<longrightarrow> (u \<in> set (removeAll v L) \<longleftrightarrow> u \<in> set L)"
      by auto
    have d: "distinct (removeAll v L)" using dL by (simp add: distinct_removeAll)
    have st: "step K (w, L) (Evicts v) =
        (w\<lparr>objs := (objs w)[i := ?m'], chans := snd (Evict ?m (chans w) v)\<rparr>, removeAll v L)"
      by (simp add: evicted_def Some split: prod.splits)
    show ?thesis
      unfolding st by (intro cons_upd[OF C Some ok _ _ d s o]) simp_all
  qed
qed

lemma onManager_consistent:
  assumes C: "consistent K (w, L)"
    and f: "\<And>m. manager_ok m \<Longrightarrow> manager_ok (f m) \<and> set (attached (f m)) = set (attached m)"
  shows "consistent K (onManager f w p, L)"
proof (cases "map_of (managers w) p")
  case None
  then show ?thesis using C by (simp add: onManager_def)
next
  case (Some i)
  have w: "world_ok w" and dL: "distinct L" using C by (simp_all add: consistent_def)
  have okm: "manager_ok (objs w ! i)" using wok_entry[OF w Some] by simp
  have att: "set (attached (objs w ! i)) = {u \<in> set L. ToPhysicalChannel K u = p}"
    using C map_of_SomeD[OF Some] by (force simp: consistent_def)
  have s: "set (attached (f (objs w ! i))) = {u \<in> set L. ToPhysicalChannel K u = p}"
    using f[OF okm] att by simp
  have st: "onManager f w p = w\<lparr>objs := (objs w)[i := f (objs w ! i)]\<rparr>"
    by (simp add: onManager_def Some)
  show ?thesis
    unfolding st using f[OF okm]
    by (intro cons_upd[OF C Some _ _ _ dL s]) simp_all
qed

lemma closeEntry_sel:
  "managers (closeEntry e w) = AList.delete (fst e) (managers w)"
  "objs (closeEntry e w) = (objs w)[snd e := fst (manager_Close (objs w ! snd e) (chans w))]"
  "chans (closeEntry e w) = snd (manager_Close (objs w ! snd e) (chans w))"
  by (simp_all add: closeEntry_def split_def Let_def)

lemma managers_fold_closeEntry:
  "managers (fold closeEntry es w) = fold (\<lambda>e. AList.delete (fst e)) es (managers w)"
  by (induction es arbitrary: w) (simp_all add: closeEntry_sel)

lemma fold_delete_all:
  "fst ` set al \<subseteq> fst ` set es \<Longrightarrow> fold (\<lambda>e. AList.delete (fst e)) es al = []"
proof (induction es arbitrary: al)
  case Nil
  then show ?case by simp
next
  case (Cons e es)
  have "fst ` set (AList.delete (fst e) al) \<subseteq> fst ` set es"
    using Cons.prems by (auto simp: set_delete)
  then show ?case using Cons.IH by simp
qed

lemma Close_managers: "managers (Close w) = []"
  by (simp add: Close_def managers_fold_closeEntry fold_delete_all)

lemma length_objs_closeEntry: "length (objs (closeEntry e w)) = length (objs w)"
  by (simp add: closeEntry_sel)

lemma length_closeQueues: "length (closeQueues cs qs) = length qs"
  unfolding closeQueues_def by (induction cs arbitrary: qs) simp_all

lemma closeQueues_nth:
  "c < length qs \<Longrightarrow> closeQueues cs qs ! c \<longleftrightarrow> qs ! c \<and> c \<notin> set cs"
proof (induction cs arbitrary: qs)
  case Nil
  then show ?case by (simp add: closeQueues_def)
next
  case (Cons a cs)
  have "closeQueues (a # cs) qs = closeQueues cs (qs[a := False])"
    by (simp add: closeQueues_def)
  moreover have "closeQueues cs (qs[a := False]) ! c \<longleftrightarrow> (qs[a := False]) ! c \<and> c \<notin> set cs"
    using Cons.prems by (intro Cons.IH) simp
  moreover have "(qs[a := False]) ! c \<longleftrightarrow> qs ! c \<and> c \<noteq> a"
    using Cons.prems by (cases "a < length qs") (auto simp: nth_list_update)
  ultimately show ?case by auto
qed

lemma length_chans_closeEntry: "length (chans (closeEntry e w)) = length (chans w)"
  by (simp add: closeEntry_sel manager_Close_def length_closeQueues)

lemma torn_Close: "torn (fst (manager_Close m qs))"
  by (simp add: torn_def manager_Close_def)

lemma fold_torn:
  "i < length (objs w) \<Longrightarrow> i \<in> snd ` set es \<or> torn (objs w ! i)
    \<Longrightarrow> torn (objs (fold closeEntry es w) ! i)"
proof (induction es arbitrary: w)
  case Nil
  then show ?case by simp
next
  case (Cons e es)
  have l: "i < length (objs (closeEntry e w))"
    using Cons.prems(1) by (simp add: length_objs_closeEntry)
  have "i \<in> snd ` set es \<or> torn (objs (closeEntry e w) ! i)"
  proof (cases "snd e = i")
    case True
    then show ?thesis
      using Cons.prems(1) torn_Close[of "objs w ! i" "chans w"]
      by (simp add: closeEntry_sel)
  next
    case False
    then show ?thesis
      using Cons.prems(2) by (auto simp: closeEntry_sel)
  qed
  then show ?case using Cons.IH[OF l] by simp
qed

lemma fold_chans:
  "c < length (chans w) \<Longrightarrow> i < length (objs w)
    \<Longrightarrow> \<not> chans w ! c \<or> (c \<in> ch ` set (targets (objs w ! i)) \<and> i \<in> snd ` set es)
    \<Longrightarrow> \<not> chans (fold closeEntry es w) ! c"
proof (induction es arbitrary: w)
  case Nil
  then show ?case by simp
next
  case (Cons e es)
  let ?w = "closeEntry e w"
  have l: "c < length (chans ?w)" "i < length (objs ?w)"
    using Cons.prems(1,2) by (simp_all add: length_chans_closeEntry length_objs_closeEntry)
  have "\<not> chans ?w ! c \<or> (c \<in> ch ` set (targets (objs ?w ! i)) \<and> i \<in> snd ` set es)"
  proof (cases "snd e = i")
    case True
    then show ?thesis
      using Cons.prems
      by (auto simp: closeEntry_sel manager_Close_def closeQueues_nth)
  next
    case False
    then show ?thesis
      using Cons.prems
      by (auto simp: closeEntry_sel manager_Close_def closeQueues_nth)
  qed
  then show ?case using Cons.IH[OF l] by simp
qed

lemma init_consistent: "consistent K (NewClient f r n, [])"
  by (simp add: consistent_def world_ok_def NewClient_def)

lemma Close_consistent: "consistent K (Close w, [])"
  by (simp add: consistent_def world_ok_def Close_managers)

lemma step_consistent: "consistent K s \<Longrightarrow> consistent K (step K s ev)"
proof (cases s)
  case (Pair w L)
  assume C: "consistent K s"
  show ?thesis
  proof (cases ev)
    case (CallRegister v p sp)
    then show ?thesis using C Register_consistent unfolding Pair by blast
  next
    case (CallDeregister v)
    then show ?thesis using C Deregister_consistent unfolding Pair by blast
  next
    case CallClose
    then show ?thesis by (simp add: Pair Close_consistent)
  next
    case (Evicts v)
    then show ?thesis using C evicted_consistent unfolding Pair by blast
  next
    case (Advances p k e)
    then show ?thesis
      using C unfolding Pair
      by (simp add: onManager_consistent Advance_ok Advance_attached)
  next
    case (Merges p)
    have "set (attached (Merge (tolerance K) m)) = set (attached m)" for m
      using Merge_attached[of "tolerance K" m] by (metis set_mset_mset)
    then show ?thesis
      using C unfolding Pair Merges
      by (simp add: onManager_consistent Merge_ok)
  qed
qed

lemma run_consistent: "consistent K s \<Longrightarrow> consistent K (run K evs s)"
  unfolding run_def by (induction evs arbitrary: s) (simp_all add: step_consistent)

lemma run_world_ok: "world_ok (fst (run K evs (NewClient f r n, [])))"
  using run_consistent[OF init_consistent, of K evs f r n] by (simp add: consistent_def)

lemma consistent_Num:
  assumes "consistent K (w, L)" and "map_of (managers w) p = Some i"
  shows "Num (objs w ! i) = liveOn K L p" and "length (targets (objs w ! i)) = liveOn K L p"
proof -
  let ?m = "objs w ! i"
  have w: "world_ok w" and dL: "distinct L" using assms(1) by (simp_all add: consistent_def)
  have ok: "manager_ok ?m" using wok_entry[OF w assms(2)] by simp
  have att: "set (attached ?m) = {u \<in> set L. ToPhysicalChannel K u = p}"
    using assms(1) map_of_SomeD[OF assms(2)] by (force simp: consistent_def)
  have "Num ?m = card (set (attached ?m))"
    using ok by (simp add: Num_attached manager_ok_def distinct_card)
  also have "\<dots> = card (set (filter (\<lambda>u. ToPhysicalChannel K u = p) L))"
    by (simp add: att)
  also have "\<dots> = liveOn K L p"
    unfolding liveOn_def using dL by (intro distinct_card distinct_filter)
  finally show "Num ?m = liveOn K L p" .
  moreover have "length (targets ?m) = length (attached ?m)"
    using ok by (metis manager_ok_def length_map size_mset)
  ultimately show "length (targets ?m) = liveOn K L p" by (simp add: Num_attached)
qed

lemma consistent_none:
  assumes "consistent K (w, L)" and "map_of (managers w) p = None"
  shows "liveOn K L p = 0"
proof -
  have "\<And>u. u \<in> set L \<Longrightarrow> ToPhysicalChannel K u \<noteq> p"
    using assms(1) wok_None[OF assms(2)] by (auto simp: consistent_def)
  then show ?thesis by (auto simp: liveOn_def filter_empty_conv)
qed

subsection \<open>The claims\<close>

text \<open>
  C7. After every history of Register and Deregister calls (and of evictions, cursor
  advances and merges in between), started from a new client: when a topic has a manager,
  its Num equals the number of live subscriptions of the topic, which equals the number
  of registered targets and the number of targets attached to the main dispatcher plus
  those attached to the solo dispatchers; a topic without a manager has no live
  subscription.
\<close>

theorem Num_counts_live_subscriptions:
  assumes "run K evs (NewClient f r n, []) = (w, L)"
  shows "case map_of (managers w) p of
           None \<Rightarrow> liveOn K L p = 0
         | Some i \<Rightarrow>
             Num (objs w ! i) = liveOn K L p
             \<and> length (targets (objs w ! i)) = liveOn K L p
             \<and> liveOn K L p =
                 (case mainDispatcher (objs w ! i) of None \<Rightarrow> 0 | Some d \<Rightarrow> length (dtargets d))
                   + sum_list (map (\<lambda>d. length (dtargets d)) (soloDispatchers (objs w ! i)))"
proof -
  have C: "consistent K (w, L)"
    using run_consistent[OF init_consistent, of K evs f r n] assms by simp
  show ?thesis
  proof (cases "map_of (managers w) p")
    case None
    then show ?thesis using consistent_none[OF C] by simp
  next
    case (Some i)
    then show ?thesis
      using consistent_Num[OF C Some] by (simp add: Num_def)
  qed
qed

theorem Num_counts_live_subscriptions_witness:
  "map_of (managers (fst (run K0 history1 (NewClient okFactory ''r'' 1, [])))) ''a'' = Some 0
   \<and> Num (objs (fst (run K0 history1 (NewClient okFactory ''r'' 1, []))) ! 0) = 2
   \<and> liveOn K0 (snd (run K0 history1 (NewClient okFactory ''r'' 1, []))) ''a'' = 2
   \<and> liveOn K0 (snd (run K0 history1 (NewClient okFactory ''r'' 1, []))) ''b'' = 0"
proof -
  let ?s = "run K0 history1 (NewClient okFactory ''r'' 1, [])"
  have r: "?s = (fst ?s, snd ?s)" by simp
  have m: "map_of (managers (fst ?s)) ''a'' = Some 0" by code_simp
  have b: "map_of (managers (fst ?s)) ''b'' = None" by code_simp
  have n: "Num (objs (fst ?s) ! 0) = 2" by code_simp
  show ?thesis
    using Num_counts_live_subscriptions[OF r, of "''a''"]
      Num_counts_live_subscriptions[OF r, of "''b''"] m b n
    by simp
qed

text \<open>
  C9. Close of the client evicts and closes every registered manager: afterwards the
  registry is empty, and every manager that was registered is torn down (closed, its
  dispatchers released, no target left) and the output queues of its targets are closed.
\<close>

theorem Close_evicts_and_closes_every_manager:
  assumes "world_ok w"
  shows "managers (Close w) = []
    \<and> (\<forall>e \<in> set (managers w).
          \<not> closed (objs w ! snd e) \<and> torn (objs (Close w) ! snd e)
          \<and> (\<forall>t \<in> set (targets (objs w ! snd e)).
                ch t < length (chans w) \<longrightarrow> \<not> chans (Close w) ! ch t))"
proof -
  have "\<not> closed (objs w ! snd e) \<and> torn (objs (Close w) ! snd e)
      \<and> (\<forall>t \<in> set (targets (objs w ! snd e)).
            ch t < length (chans w) \<longrightarrow> \<not> chans (Close w) ! ch t)"
    if e: "e \<in> set (managers w)" for e
  proof -
    have i: "snd e < length (objs w)" and ok: "manager_ok (objs w ! snd e)"
      using assms e by (simp_all add: world_ok_def)
    have "torn (objs (Close w) ! snd e)"
      unfolding Close_def using e by (intro fold_torn[OF i]) simp
    moreover have "\<not> chans (Close w) ! ch t"
      if "t \<in> set (targets (objs w ! snd e))" and "ch t < length (chans w)" for t
      unfolding Close_def using that e by (intro fold_chans[OF _ i]) simp_all
    ultimately show ?thesis using ok by (simp add: manager_ok_def)
  qed
  then show ?thesis by (simp add: Close_managers)
qed

theorem Close_evicts_and_closes_every_manager_witness:
  "world_ok (fst (run K0 history2 (NewClient okFactory ''r'' 1, [])))
   \<and> managers (fst (run K0 history2 (NewClient okFactory ''r'' 1, []))) = [(''a'', 0), (''b'', 1)]
   \<and> chans (fst (run K0 history2 (NewClient okFactory ''r'' 1, []))) = [True, True, True]
   \<and> managers (Close (fst (run K0 history2 (NewClient okFactory ''r'' 1, [])))) = []
   \<and> torn (objs (Close (fst (run K0 history2 (NewClient okFactory ''r'' 1, [])))) ! 0)
   \<and> torn (objs (Close (fst (run K0 history2 (NewClient okFactory ''r'' 1, [])))) ! 1)
   \<and> \<not> chans (Close (fst (run K0 history2 (NewClient okFactory ''r'' 1, [])))) ! 1"
proof -
  let ?w = "fst (run K0 history2 (NewClient okFactory ''r'' 1, []))"
  have "consistent K0 (run K0 history2 (NewClient okFactory ''r'' 1, []))"
    by (rule run_consistent[OF init_consistent])
  then have ok: "world_ok ?w" by (simp add: consistent_def)
  have m: "managers ?w = [(''a'', 0), (''b'', 1)]" by code_simp
  have c: "chans ?w = [True, True, True]" by code_simp
  have t: "map ch (targets (objs ?w ! 0)) = [0, 1]" by code_simp
  have "\<exists>t \<in> set (targets (objs ?w ! 0)). ch t = 1"
  proof -
    have "1 \<in> set (map ch (targets (objs ?w ! 0)))" by (simp add: t)
    then show ?thesis by auto
  qed
  then show ?thesis
    using Close_evicts_and_closes_every_manager[OF ok] ok m c by auto
qed

lemma getManager_valid:
  assumes "world_ok w" and "getManager w p = (i, w1)"
  shows "i < length (objs w1)"
proof (cases "map_of (managers w) p")
  case None
  then show ?thesis using assms(2) by (auto simp: getManager_def Let_def)
next
  case (Some j)
  then show ?thesis using assms(2) wok_entry(1)[OF assms(1) Some] by (simp add: getManager_def)
qed

lemma getManager_managers:
  assumes "getManager w p = (i, w1)"
  shows "AList.delete p (managers w1) = AList.delete p (managers w)"
  using assms
  by (cases "map_of (managers w) p") (auto simp: getManager_def Let_def delete_update_same)

lemma Register_failed:
  assumes "getManager w (ToPhysicalChannel K v) = (i, w1)"
    and "Add (tolerance K) (objs w1 ! i) (chans w1) v p sp = (Inl e, m', qs')"
  shows "Register K w v p sp =
    (Inl e,
     if Num m' = 0 then
       w1\<lparr>managers := AList.delete (ToPhysicalChannel K v) (managers w1),
          objs := (objs w1)[i := fst (manager_Close m' qs')],
          chans := snd (manager_Close m' qs')\<rparr>
     else w1\<lparr>objs := (objs w1)[i := m'], chans := qs'\<rparr>)"
  using assms by (simp add: Register_def Let_def split_def)

text \<open>
  C2. When the Add of a Register call fails and the manager then holds no target, Register
  returns the error (and no output queue), the manager is closed, and the registry has no
  entry for the topic any more: it is the registry before the call without that topic.
\<close>

theorem Register_failure_evicts_empty_manager:
  assumes "world_ok w"
    and "getManager w (ToPhysicalChannel K v) = (i, w1)"
    and "Add (tolerance K) (objs w1 ! i) (chans w1) v p sp = (Inl e, m', qs')"
    and "Num m' = 0"
  shows "fst (Register K w v p sp) = Inl e
    \<and> torn (objs (snd (Register K w v p sp)) ! i)
    \<and> map_of (managers (snd (Register K w v p sp))) (ToPhysicalChannel K v) = None
    \<and> managers (snd (Register K w v p sp)) = AList.delete (ToPhysicalChannel K v) (managers w)"
  using getManager_valid[OF assms(1,2)] getManager_managers[OF assms(2)] assms(4)
    torn_Close[of m' qs']
  by (simp add: Register_failed[OF assms(2,3)] delete_conv')

theorem Register_failure_evicts_empty_manager_witness:
  "world_ok (NewClient downFactory ''r'' 1)
   \<and> getManager (NewClient downFactory ''r'' 1) (ToPhysicalChannel K0 ''a_1'')
       = (0, snd (getManager (NewClient downFactory ''r'' 1) ''a''))
   \<and> fst (Register K0 (NewClient downFactory ''r'' 1) ''a_1'' None Earliest) = Inl TransportUnavailable
   \<and> torn (objs (snd (Register K0 (NewClient downFactory ''r'' 1) ''a_1'' None Earliest)) ! 0)
   \<and> managers (snd (Register K0 (NewClient downFactory ''r'' 1) ''a_1'' None Earliest)) = []"
proof -
  let ?w = "NewClient downFactory ''r'' 1"
  let ?w1 = "snd (getManager ?w ''a'')"
  let ?m = "Run (NewDispatcherManager ''a'' ''r'' 1 downFactory)"
  have ok: "world_ok ?w" by (simp add: world_ok_def NewClient_def)
  have p: "ToPhysicalChannel K0 ''a_1'' = ''a''" by (simp add: K0_def upToLastUnderscore_def)
  have g: "getManager ?w (ToPhysicalChannel K0 ''a_1'') = (0, ?w1)"
    by (simp add: p getManager_def NewClient_def Let_def)
  have o: "objs ?w1 ! 0 = ?m" "chans ?w1 = []"
    by (simp_all add: getManager_def NewClient_def Let_def)
  have a: "Add (tolerance K0) (objs ?w1 ! 0) (chans ?w1) ''a_1'' None Earliest
      = (Inl TransportUnavailable, ?m, [])"
    unfolding o by (simp add: Add_def Run_def NewDispatcherManager_def downFactory_def Let_def)
  have n: "Num ?m = 0" by (simp add: Num_def Run_def NewDispatcherManager_def)
  show ?thesis
    using Register_failure_evicts_empty_manager[OF ok g a n] ok g
    by (simp add: NewClient_def)
qed

lemma getManager_new_empty:
  assumes "map_of (managers w) p = None" and "getManager w p = (i, w1)"
  shows "objs w1 ! i = Run (NewDispatcherManager p (role w) (nodeID w) (factory w))"
  using assms by (auto simp: getManager_def Let_def)

lemma getManager_old:
  assumes "map_of (managers w) p = Some j" and "getManager w p = (i, w1)"
  shows "i = j" and "w1 = w"
  using assms by (simp_all add: getManager_def)

text \<open>
  C10. When the Add of a Register call fails and the manager still holds a target, the
  manager was registered before the call, and Register returns the error and leaves the
  registry and that manager as they were, the manager not closed. When a Deregister call
  leaves the manager with a target, the registry is unchanged, and the manager, with the
  target removed, is not closed.
\<close>

theorem nonempty_manager_stays_registered:
  assumes "world_ok w"
  shows "(\<forall>i w1 e m' qs'.
            getManager w (ToPhysicalChannel K v) = (i, w1)
            \<and> Add (tolerance K) (objs w1 ! i) (chans w1) v p sp = (Inl e, m', qs')
            \<and> 0 < Num m'
            \<longrightarrow> Register K w v p sp = (Inl e, w)
                \<and> map_of (managers w) (ToPhysicalChannel K v) = Some i
                \<and> \<not> closed (objs w ! i))
    \<and> (\<forall>i m' qs'.
            map_of (managers w) (ToPhysicalChannel K v) = Some i
            \<and> Remove (objs w ! i) (chans w) v = (m', qs')
            \<and> 0 < Num m'
            \<longrightarrow> Deregister K w v = w\<lparr>objs := (objs w)[i := m'], chans := qs'\<rparr>
                \<and> managers (Deregister K w v) = managers w
                \<and> objs (Deregister K w v) ! i = m'
                \<and> \<not> closed m')"
proof (intro conjI allI impI)
  fix i w1 e m' qs'
  assume h: "getManager w (ToPhysicalChannel K v) = (i, w1)
    \<and> Add (tolerance K) (objs w1 ! i) (chans w1) v p sp = (Inl e, m', qs') \<and> 0 < Num m'"
  then have g: "getManager w (ToPhysicalChannel K v) = (i, w1)"
    and a: "Add (tolerance K) (objs w1 ! i) (chans w1) v p sp = (Inl e, m', qs')"
    and n: "0 < Num m'" by simp_all
  have m': "m' = objs w1 ! i" and qs': "qs' = chans w1" using Add_Inl[OF a] by simp_all
  have old: "map_of (managers w) (ToPhysicalChannel K v) = Some i \<and> w1 = w"
  proof (cases "map_of (managers w) (ToPhysicalChannel K v)")
    case None
    then have "Num m' = 0"
      using getManager_new_empty[OF None g]
      by (simp add: m' Num_attached new_manager_attached)
    with n show ?thesis by simp
  next
    case (Some j)
    then show ?thesis using getManager_old[OF Some g] by simp
  qed
  then have s: "map_of (managers w) (ToPhysicalChannel K v) = Some i" and w1: "w1 = w"
    by simp_all
  show "Register K w v p sp = (Inl e, w)"
    using n by (simp add: Register_failed[OF g a]) (simp add: m' qs' w1)
  show "map_of (managers w) (ToPhysicalChannel K v) = Some i" by (rule s)
  show "\<not> closed (objs w ! i)"
    using wok_entry(2)[OF assms s] by (simp add: manager_ok_def)
next
  fix i m' qs'
  assume h: "map_of (managers w) (ToPhysicalChannel K v) = Some i
    \<and> Remove (objs w ! i) (chans w) v = (m', qs') \<and> 0 < Num m'"
  then have s: "map_of (managers w) (ToPhysicalChannel K v) = Some i"
    and r: "Remove (objs w ! i) (chans w) v = (m', qs')"
    and n: "0 < Num m'" by simp_all
  have i: "i < length (objs w)" and ok: "manager_ok (objs w ! i)"
    using wok_entry[OF assms s] by simp_all
  have m': "m' = fst (Remove (objs w ! i) (chans w) v)" using r by simp
  show d: "Deregister K w v = w\<lparr>objs := (objs w)[i := m'], chans := qs'\<rparr>"
    using n by (simp add: Deregister_some[OF s r])
  show "managers (Deregister K w v) = managers w" by (simp add: d)
  show "objs (Deregister K w v) ! i = m'" using i by (simp add: d)
  show "\<not> closed m'" using ok by (simp add: m' Remove_fields manager_ok_def)
qed

theorem nonempty_manager_stays_registered_witness:
  "world_ok (fst (run K0 history2 (NewClient okFactory ''r'' 1, [])))
   \<and> Register K0 (fst (run K0 history2 (NewClient okFactory ''r'' 1, []))) ''a_2'' None Latest
       = (Inl DuplicateRegistration, fst (run K0 history2 (NewClient okFactory ''r'' 1, [])))
   \<and> managers (Deregister K0 (fst (run K0 history2 (NewClient okFactory ''r'' 1, []))) ''a_2'')
       = [(''a'', 0), (''b'', 1)]
   \<and> \<not> closed (objs (Deregister K0 (fst (run K0 history2 (NewClient okFactory ''r'' 1, []))) ''a_2'') ! 0)"
proof -
  let ?w = "fst (run K0 history2 (NewClient okFactory ''r'' 1, []))"
  let ?A = "Add (tolerance K0) (objs ?w ! 0) (chans ?w) ''a_2'' None Latest"
  let ?R = "Remove (objs ?w ! 0) (chans ?w) ''a_2''"
  have "consistent K0 (run K0 history2 (NewClient okFactory ''r'' 1, []))"
    by (rule run_consistent[OF init_consistent])
  then have ok: "world_ok ?w" by (simp add: consistent_def)
  have p: "ToPhysicalChannel K0 ''a_2'' = ''a''" by (simp add: K0_def upToLastUnderscore_def)
  have m: "managers ?w = [(''a'', 0), (''b'', 1)]" by code_simp
  have s: "map_of (managers ?w) (ToPhysicalChannel K0 ''a_2'') = Some 0" by (simp add: p m)
  have g: "getManager ?w (ToPhysicalChannel K0 ''a_2'') = (0, ?w)"
    using s by (simp add: getManager_def)
  have "''a_2'' \<in> set (map vchannel (targets (objs ?w ! 0)))" by code_simp
  then have a: "?A = (Inl DuplicateRegistration, objs ?w ! 0, chans ?w)" by (rule Add_dup)
  have n1: "0 < Num (objs ?w ! 0)" by code_simp
  have r: "?R = (fst ?R, snd ?R)" by simp
  have n2: "0 < Num (fst ?R)" by code_simp
  show ?thesis
    using nonempty_manager_stays_registered[OF ok, of K0 "''a_2''" None Latest] g a n1 s r n2 ok m
    by (metis nth_list_update_eq)
qed

text \<open>
  C3. Register for a subscription that is live under the manager of its topic fails with
  DuplicateRegistration and changes nothing: the registry, every manager and every
  output queue are as before, so the target of the original registration is still
  attached and its queue is in the state it had.
\<close>

theorem Register_duplicate_fails:
  assumes "world_ok w"
    and "map_of (managers w) (ToPhysicalChannel K v) = Some i"
    and "v \<in> set (map vchannel (targets (objs w ! i)))"
  shows "Register K w v p sp = (Inl DuplicateRegistration, w)
    \<and> (\<forall>t \<in> set (targets (objs w ! i)).
          vchannel t = v \<longrightarrow>
            t \<in> set (targets (objs (snd (Register K w v p sp)) ! i))
            \<and> chans (snd (Register K w v p sp)) ! ch t = chans w ! ch t
            \<and> v \<in> set (attached (objs (snd (Register K w v p sp)) ! i)))"
proof -
  have ok: "manager_ok (objs w ! i)" using wok_entry(2)[OF assms(1,2)] .
  have a: "Add (tolerance K) (objs w ! i) (chans w) v p sp
      = (Inl DuplicateRegistration, objs w ! i, chans w)"
    using assms(3) by (rule Add_dup)
  have att: "v \<in> set (attached (objs w ! i))"
    using assms(3) ok_names[OF ok] by simp
  then have "Num (objs w ! i) \<noteq> 0" by (auto simp: Num_attached)
  then have "Register K w v p sp = (Inl DuplicateRegistration, w)"
    by (simp add: Register_old[OF assms(2) a])
  then show ?thesis using att by simp
qed

theorem Register_duplicate_fails_witness:
  "world_ok (fst (run K0 history2 (NewClient okFactory ''r'' 1, [])))
   \<and> map_of (managers (fst (run K0 history2 (NewClient okFactory ''r'' 1, []))))
        (ToPhysicalChannel K0 ''a_1'') = Some 0
   \<and> ''a_1'' \<in> set (map vchannel (targets (objs (fst (run K0 history2 (NewClient okFactory ''r'' 1, []))) ! 0)))
   \<and> Register K0 (fst (run K0 history2 (NewClient okFactory ''r'' 1, []))) ''a_1'' (Some 3) Latest
       = (Inl DuplicateRegistration, fst (run K0 history2 (NewClient okFactory ''r'' 1, [])))"
proof -
  let ?w = "fst (run K0 history2 (NewClient okFactory ''r'' 1, []))"
  have "consistent K0 (run K0 history2 (NewClient okFactory ''r'' 1, []))"
    by (rule run_consistent[OF init_consistent])
  then have ok: "world_ok ?w" by (simp add: consistent_def)
  have s: "map_of (managers ?w) (ToPhysicalChannel K0 ''a_1'') = Some 0" by code_simp
  have l: "''a_1'' \<in> set (map vchannel (targets (objs ?w ! 0)))" by code_simp
  show ?thesis
    using Register_duplicate_fails[OF ok s l, of "Some 3" Latest] ok s l by blast
qed

lemma Add_runs: "runs (fst (snd (Add tol m qs v p sp))) = runs m"
  by (simp add: Add_def Let_def split: option.splits)

lemma manager_Close_runs: "runs (fst (manager_Close m qs)) = runs m"
  by (simp add: manager_Close_def)

lemma Register_objs:
  assumes "getManager w (ToPhysicalChannel K v) = (i, w1)"
  shows "\<exists>m'. objs (snd (Register K w v p sp)) = (objs w1)[i := m'] \<and> runs m' = runs (objs w1 ! i)"
proof -
  let ?A = "Add (tolerance K) (objs w1 ! i) (chans w1) v p sp"
  let ?m = "fst (snd ?A)"
  have "objs (snd (Register K w v p sp)) = (objs w1)[i := ?m]
      \<or> objs (snd (Register K w v p sp)) = (objs w1)[i := fst (manager_Close ?m (snd (snd ?A)))]"
    using assms by (simp add: Register_def Let_def split_def split: sum.splits)
  then show ?thesis
    using Add_runs[of "tolerance K" "objs w1 ! i" "chans w1" v p sp]
      manager_Close_runs[of ?m "snd (snd ?A)"]
    by metis
qed

text \<open>
  C8. With no manager registered for the topic, the first part of Register creates a
  manager object, registers it and starts its control loop once; Register then returns
  what Add returns on that manager, whose control loop count is one afterwards. With a
  manager registered, the first part of Register returns it and changes nothing, and no
  object is created. In both cases no control loop is started on a manager that existed
  before the call.
\<close>

theorem Register_starts_control_loop_once:
  "(case map_of (managers w) (ToPhysicalChannel K v) of
      None \<Rightarrow>
        getManager w (ToPhysicalChannel K v)
          = (length (objs w),
             w\<lparr>managers := AList.update (ToPhysicalChannel K v) (length (objs w)) (managers w),
               objs := objs w @
                 [Run (NewDispatcherManager (ToPhysicalChannel K v) (role w) (nodeID w) (factory w))]\<rparr>)
        \<and> runs (Run (NewDispatcherManager (ToPhysicalChannel K v) (role w) (nodeID w) (factory w))) = 1
        \<and> length (objs (snd (Register K w v p sp))) = Suc (length (objs w))
        \<and> runs (objs (snd (Register K w v p sp)) ! length (objs w)) = 1
    | Some i \<Rightarrow>
        getManager w (ToPhysicalChannel K v) = (i, w)
        \<and> length (objs (snd (Register K w v p sp))) = length (objs w))
   \<and> fst (Register K w v p sp)
       = fst (Add (tolerance K)
               (objs (snd (getManager w (ToPhysicalChannel K v)))
                  ! fst (getManager w (ToPhysicalChannel K v)))
               (chans (snd (getManager w (ToPhysicalChannel K v)))) v p sp)
   \<and> (\<forall>j < length (objs w).
         runs (objs (snd (Register K w v p sp)) ! j) = runs (objs w ! j))"
proof -
  let ?p = "ToPhysicalChannel K v"
  let ?m0 = "Run (NewDispatcherManager ?p (role w) (nodeID w) (factory w))"
  let ?w' = "snd (Register K w v p sp)"
  have res: "fst (Register K w v p sp)
       = fst (Add (tolerance K) (objs (snd (getManager w ?p)) ! fst (getManager w ?p))
               (chans (snd (getManager w ?p))) v p sp)"
    by (simp add: Register_def Let_def split_def split: sum.splits)
  show ?thesis
  proof (cases "map_of (managers w) ?p")
    case None
    let ?w1 = "w\<lparr>managers := AList.update ?p (length (objs w)) (managers w),
                  objs := objs w @ [?m0]\<rparr>"
    have g: "getManager w ?p = (length (objs w), ?w1)"
      by (simp add: getManager_def None Let_def)
    obtain m' where o: "objs ?w' = (objs ?w1)[length (objs w) := m']"
      and r: "runs m' = runs (objs ?w1 ! length (objs w))"
      using Register_objs[OF g] by blast
    have r0: "runs ?m0 = 1" by (simp add: Run_def NewDispatcherManager_def)
    have "runs (objs ?w' ! length (objs w)) = 1" using r r0 by (simp add: o)
    moreover have "length (objs ?w') = Suc (length (objs w))" by (simp add: o)
    moreover have "\<forall>j < length (objs w). runs (objs ?w' ! j) = runs (objs w ! j)"
      by (simp add: o nth_append)
    ultimately show ?thesis using g r0 res by (simp add: None)
  next
    case (Some i)
    have g: "getManager w ?p = (i, w)" by (simp add: getManager_def Some)
    obtain m' where o: "objs ?w' = (objs w)[i := m']" and r: "runs m' = runs (objs w ! i)"
      using Register_objs[OF g] by blast
    have "runs ((objs w)[i := m'] ! j) = runs (objs w ! j)" if "j < length (objs w)" for j
      using that r by (cases "j = i") simp_all
    then have "\<forall>j < length (objs w). runs (objs ?w' ! j) = runs (objs w ! j)"
      by (simp add: o)
    moreover have "length (objs ?w') = length (objs w)" by (simp add: o)
    ultimately show ?thesis using g res by (simp add: Some)
  qed
qed

theorem Register_starts_control_loop_once_witness:
  "map_of (managers (NewClient okFactory ''r'' 1)) (ToPhysicalChannel K0 ''a_1'') = None
   \<and> runs (objs (snd (Register K0 (NewClient okFactory ''r'' 1) ''a_1'' None Earliest)) ! 0) = 1
   \<and> map_of (managers (snd (Register K0 (NewClient okFactory ''r'' 1) ''a_1'' None Earliest)))
        (ToPhysicalChannel K0 ''a_2'') = Some 0
   \<and> runs (objs (snd (Register K0
        (snd (Register K0 (NewClient okFactory ''r'' 1) ''a_1'' None Earliest)) ''a_2'' None Earliest)) ! 0) = 1
   \<and> length (objs (snd (Register K0
        (snd (Register K0 (NewClient okFactory ''r'' 1) ''a_1'' None Earliest)) ''a_2'' None Earliest))) = 1"
proof -
  let ?w0 = "NewClient okFactory ''r'' 1"
  let ?w1 = "snd (Register K0 ?w0 ''a_1'' None Earliest)"
  have n: "map_of (managers ?w0) (ToPhysicalChannel K0 ''a_1'') = None"
    by (simp add: NewClient_def)
  have l0: "length (objs ?w0) = 0" by (simp add: NewClient_def)
  have s: "map_of (managers ?w1) (ToPhysicalChannel K0 ''a_2'') = Some 0" by code_simp
  have a: "runs (objs ?w1 ! 0) = 1 \<and> length (objs ?w1) = 1"
    using Register_starts_control_loop_once[of ?w0 K0 "''a_1''" None Earliest] n l0 by simp
  show ?thesis
    using Register_starts_control_loop_once[of ?w1 K0 "''a_2''" None Earliest] n s a by simp
qed

lemma Deregister_fields:
  "role (Deregister K w v) = role w" "nodeID (Deregister K w v) = nodeID w"
  "factory (Deregister K w v) = factory w" "length (objs (Deregister K w v)) = length (objs w)"
  by (simp_all add: Deregister_def Let_def split_def split: option.splits)

lemma Deregister_last:
  assumes "world_ok w" and "map_of (managers w) (ToPhysicalChannel K v) = Some i"
    and "Num (fst (Remove (objs w ! i) (chans w) v)) = 0"
  shows "managers (Deregister K w v) = AList.delete (ToPhysicalChannel K v) (managers w)"
    and "torn (objs (Deregister K w v) ! i)"
proof -
  let ?R = "Remove (objs w ! i) (chans w) v"
  have r: "?R = (fst ?R, snd ?R)" by simp
  have i: "i < length (objs w)" using wok_entry(1)[OF assms(1,2)] .
  show "managers (Deregister K w v) = AList.delete (ToPhysicalChannel K v) (managers w)"
    using assms(3) by (simp add: Deregister_some[OF assms(2) r])
  show "torn (objs (Deregister K w v) ! i)"
    using assms(3) i torn_Close[of "fst ?R" "snd ?R"]
    by (simp add: Deregister_some[OF assms(2) r])
qed

text \<open>
  C1. When a Deregister call removes the last target of the manager of a topic, the
  manager is closed and the topic is removed from the registry. A following Register for
  any subscription of the same topic creates a new manager object, different from the
  old one, and returns what Add returns on a newly constructed manager; on success the
  registry refers to that new manager, whose state comes from the new manager alone, and
  the old manager stays as it was left, torn down.
\<close>

theorem Deregister_last_target_then_new_manager:
  assumes "world_ok w"
    and "map_of (managers w) (ToPhysicalChannel K v) = Some i"
    and "Num (fst (Remove (objs w ! i) (chans w) v)) = 0"
    and "ToPhysicalChannel K v' = ToPhysicalChannel K v"
  shows "managers (Deregister K w v) = AList.delete (ToPhysicalChannel K v) (managers w)
    \<and> map_of (managers (Deregister K w v)) (ToPhysicalChannel K v) = None
    \<and> \<not> closed (objs w ! i) \<and> torn (objs (Deregister K w v) ! i)
    \<and> fst (getManager (Deregister K w v) (ToPhysicalChannel K v')) = length (objs w)
    \<and> i < length (objs w)
    \<and> (let fresh = Run (NewDispatcherManager (ToPhysicalChannel K v) (role w) (nodeID w) (factory w));
            A = Add (tolerance K) fresh (chans (Deregister K w v)) v' p sp;
            R = Register K (Deregister K w v) v' p sp
        in fst R = fst A
           \<and> length (objs (snd R)) = Suc (length (objs w))
           \<and> objs (snd R) ! i = objs (Deregister K w v) ! i
           \<and> (case fst A of
                 Inr c \<Rightarrow>
                   map_of (managers (snd R)) (ToPhysicalChannel K v) = Some (length (objs w))
                   \<and> objs (snd R) ! length (objs w) = fst (snd A)
               | Inl e \<Rightarrow>
                   map_of (managers (snd R)) (ToPhysicalChannel K v) = None
                   \<and> torn (objs (snd R) ! length (objs w))))"
proof -
  let ?p = "ToPhysicalChannel K v"
  let ?w' = "Deregister K w v"
  let ?fresh = "Run (NewDispatcherManager ?p (role w) (nodeID w) (factory w))"
  let ?A = "Add (tolerance K) ?fresh (chans ?w') v' p sp"
  have i: "i < length (objs w)" and ok: "manager_ok (objs w ! i)"
    using wok_entry[OF assms(1,2)] by simp_all
  note D = Deregister_last[OF assms(1,2,3)]
  have none: "map_of (managers ?w') (ToPhysicalChannel K v') = None"
    by (simp add: D(1) assms(4) delete_conv')
  have a: "Add (tolerance K)
      (Run (NewDispatcherManager (ToPhysicalChannel K v') (role ?w') (nodeID ?w') (factory ?w')))
      (chans ?w') v' p sp = (fst ?A, fst (snd ?A), snd (snd ?A))"
    by (simp add: Deregister_fields assms(4))
  note R = Register_new[OF none a]
  have g: "fst (getManager ?w' (ToPhysicalChannel K v')) = length (objs w)"
    using none by (simp add: getManager_def Let_def Deregister_fields)
  have l: "length (objs ?w') = length (objs w)" by (rule Deregister_fields)
  have old: "(objs ?w' @ [x]) ! i = objs ?w' ! i" for x
    using i l by (simp add: nth_append)
  have new: "(objs ?w' @ [x]) ! length (objs w) = x" for x
    using l by (metis nth_append_length)
  have "fst (Register K ?w' v' p sp) = fst ?A"
    by (simp add: R split: sum.splits)
  moreover have "length (objs (snd (Register K ?w' v' p sp))) = Suc (length (objs w))"
    by (simp add: R l split: sum.splits)
  moreover have "objs (snd (Register K ?w' v' p sp)) ! i = objs ?w' ! i"
    by (simp add: R old split: sum.splits)
  moreover have "case fst ?A of
       Inr c \<Rightarrow>
         map_of (managers (snd (Register K ?w' v' p sp))) ?p = Some (length (objs w))
         \<and> objs (snd (Register K ?w' v' p sp)) ! length (objs w) = fst (snd ?A)
     | Inl e \<Rightarrow>
         map_of (managers (snd (Register K ?w' v' p sp))) ?p = None
         \<and> torn (objs (snd (Register K ?w' v' p sp)) ! length (objs w))"
  proof (cases "fst ?A")
    case (Inl e)
    then have "Add (tolerance K) ?fresh (chans ?w') v' p sp = (Inl e, fst (snd ?A), snd (snd ?A))"
      by (metis prod.collapse)
    then have "fst (snd ?A) = ?fresh" using Add_Inl by blast
    then have "Num (fst (snd ?A)) = 0" by (simp add: Num_attached new_manager_attached)
    then show ?thesis
      using torn_Close[of "fst (snd ?A)" "snd (snd ?A)"]
      by (simp add: R Inl new assms(4) delete_conv')
  next
    case (Inr c)
    then show ?thesis by (simp add: R new assms(4) l update_conv')
  qed
  ultimately show ?thesis
    using D i ok g by (simp add: Let_def manager_ok_def delete_conv')
qed

theorem Deregister_last_target_then_new_manager_witness:
  "world_ok (fst (run K0 [CallRegister ''a_1'' None Earliest] (NewClient okFactory ''r'' 1, [])))
   \<and> managers (fst (run K0 [CallRegister ''a_1'' None Earliest] (NewClient okFactory ''r'' 1, [])))
       = [(''a'', 0)]
   \<and> managers (Deregister K0
        (fst (run K0 [CallRegister ''a_1'' None Earliest] (NewClient okFactory ''r'' 1, []))) ''a_1'') = []
   \<and> torn (objs (Deregister K0
        (fst (run K0 [CallRegister ''a_1'' None Earliest] (NewClient okFactory ''r'' 1, []))) ''a_1'') ! 0)
   \<and> managers (snd (Register K0 (Deregister K0
        (fst (run K0 [CallRegister ''a_1'' None Earliest] (NewClient okFactory ''r'' 1, []))) ''a_1'')
        ''a_2'' (Some 9) Latest)) = [(''a'', 1)]
   \<and> torn (objs (snd (Register K0 (Deregister K0
        (fst (run K0 [CallRegister ''a_1'' None Earliest] (NewClient okFactory ''r'' 1, []))) ''a_1'')
        ''a_2'' (Some 9) Latest)) ! 0)"
proof -
  let ?w = "fst (run K0 [CallRegister ''a_1'' None Earliest] (NewClient okFactory ''r'' 1, []))"
  have "consistent K0 (run K0 [CallRegister ''a_1'' None Earliest] (NewClient okFactory ''r'' 1, []))"
    by (rule run_consistent[OF init_consistent])
  then have ok: "world_ok ?w" by (simp add: consistent_def)
  have m: "managers ?w = [(''a'', 0)]" by code_simp
  have s: "map_of (managers ?w) (ToPhysicalChannel K0 ''a_1'') = Some 0" by code_simp
  have n: "Num (fst (Remove (objs ?w ! 0) (chans ?w) ''a_1'')) = 0" by code_simp
  have q: "ToPhysicalChannel K0 ''a_2'' = ToPhysicalChannel K0 ''a_1''" by code_simp
  have r: "managers (snd (Register K0 (Deregister K0 ?w ''a_1'') ''a_2'' (Some 9) Latest))
      = [(''a'', 1)]" by code_simp
  have p: "ToPhysicalChannel K0 ''a_1'' = ''a''" by code_simp
  show ?thesis
    using Deregister_last_target_then_new_manager[OF ok s n q, of "Some 9" Latest] ok m r
    by (simp add: Let_def p)
qed

text \<open>
  C4, as stated, fails: after the only target of a topic has been evicted, Deregister of
  an unknown subscription of that topic finds the manager empty, closes it and removes
  it from the registry.
\<close>

theorem Deregister_unknown_counterexample:
  "map_of (managers (fst (run K0 history3 (NewClient okFactory ''r'' 1, []))))
      (ToPhysicalChannel K0 ''a_2'') = Some 0
   \<and> ''a_2'' \<notin> set (map vchannel
        (targets (objs (fst (run K0 history3 (NewClient okFactory ''r'' 1, []))) ! 0)))
   \<and> managers (fst (run K0 history3 (NewClient okFactory ''r'' 1, []))) = [(''a'', 0)]
   \<and> \<not> closed (objs (fst (run K0 history3 (NewClient okFactory ''r'' 1, []))) ! 0)
   \<and> managers (Deregister K0 (fst (run K0 history3 (NewClient okFactory ''r'' 1, []))) ''a_2'') = []
   \<and> closed (objs (Deregister K0 (fst (run K0 history3 (NewClient okFactory ''r'' 1, []))) ''a_2'') ! 0)
   \<and> Deregister K0 (fst (run K0 history3 (NewClient okFactory ''r'' 1, []))) ''a_2''
       \<noteq> fst (run K0 history3 (NewClient okFactory ''r'' 1, []))"
proof -
  let ?w = "fst (run K0 history3 (NewClient okFactory ''r'' 1, []))"
  have a: "map_of (managers ?w) (ToPhysicalChannel K0 ''a_2'') = Some 0" by code_simp
  have b: "''a_2'' \<notin> set (map vchannel (targets (objs ?w ! 0)))" by code_simp
  have c: "managers ?w = [(''a'', 0)]" by code_simp
  have d: "\<not> closed (objs ?w ! 0)" by code_simp
  have e: "managers (Deregister K0 ?w ''a_2'') = []" by code_simp
  have f: "closed (objs (Deregister K0 ?w ''a_2'') ! 0)" by code_simp
  have "managers (Deregister K0 ?w ''a_2'') \<noteq> managers ?w" by (simp add: c e)
  then have "Deregister K0 ?w ''a_2'' \<noteq> ?w" by auto
  with a b c d e f show ?thesis by blast
qed

text \<open>
  C4, amended. Deregister of an unknown subscription changes nothing when its topic has
  no manager, or when the manager of its topic holds at least one target. When the
  manager of its topic holds no target, Deregister closes that manager and removes the
  topic from the registry.
\<close>

theorem Deregister_unknown_subscription:
  assumes "world_ok w"
    and "case map_of (managers w) (ToPhysicalChannel K v) of
           None \<Rightarrow> True
         | Some i \<Rightarrow> v \<notin> set (map vchannel (targets (objs w ! i)))"
  shows "case map_of (managers w) (ToPhysicalChannel K v) of
           None \<Rightarrow> Deregister K w v = w
         | Some i \<Rightarrow>
             if 0 < Num (objs w ! i) then Deregister K w v = w
             else managers (Deregister K w v) = AList.delete (ToPhysicalChannel K v) (managers w)
                  \<and> torn (objs (Deregister K w v) ! i)"
proof (cases "map_of (managers w) (ToPhysicalChannel K v)")
  case None
  then show ?thesis by (simp add: Deregister_none)
next
  case (Some i)
  have ok: "manager_ok (objs w ! i)" and i: "i < length (objs w)"
    using wok_entry[OF assms(1) Some] by simp_all
  have u: "v \<notin> set (map vchannel (targets (objs w ! i)))" using assms(2) by (simp add: Some)
  have r: "Remove (objs w ! i) (chans w) v = (objs w ! i, chans w)"
    using ok u by (rule Remove_unknown)
  show ?thesis
  proof (cases "0 < Num (objs w ! i)")
    case True
    then show ?thesis by (simp add: Some Deregister_some[OF Some r])
  next
    case False
    then show ?thesis
      using i torn_Close[of "objs w ! i" "chans w"]
      by (simp add: Some Deregister_some[OF Some r])
  qed
qed

theorem Deregister_unknown_subscription_witness:
  "world_ok (fst (run K0 history2 (NewClient okFactory ''r'' 1, [])))
   \<and> map_of (managers (fst (run K0 history2 (NewClient okFactory ''r'' 1, []))))
        (ToPhysicalChannel K0 ''a_9'') = Some 0
   \<and> ''a_9'' \<notin> set (map vchannel
        (targets (objs (fst (run K0 history2 (NewClient okFactory ''r'' 1, []))) ! 0)))
   \<and> Deregister K0 (fst (run K0 history2 (NewClient okFactory ''r'' 1, []))) ''a_9''
       = fst (run K0 history2 (NewClient okFactory ''r'' 1, []))"
proof -
  let ?w = "fst (run K0 history2 (NewClient okFactory ''r'' 1, []))"
  have "consistent K0 (run K0 history2 (NewClient okFactory ''r'' 1, []))"
    by (rule run_consistent[OF init_consistent])
  then have ok: "world_ok ?w" by (simp add: consistent_def)
  have s: "map_of (managers ?w) (ToPhysicalChannel K0 ''a_9'') = Some 0" by code_simp
  have u: "''a_9'' \<notin> set (map vchannel (targets (objs ?w ! 0)))" by code_simp
  have n: "0 < Num (objs ?w ! 0)" by code_simp
  have h: "case map_of (managers ?w) (ToPhysicalChannel K0 ''a_9'') of
             None \<Rightarrow> True
           | Some i \<Rightarrow> ''a_9'' \<notin> set (map vchannel (targets (objs ?w ! i)))"
    using u by (simp add: s)
  show ?thesis
    using Deregister_unknown_subscription[OF ok h] ok s u n by simp
qed

end
